theory Spec2Isabelle
  imports Complex_Main "HOL-Library.Word" "HOL-Library.Log_Nat" "HOL-Library.Extended_Nat"
    "HOL-Library.Multiset"
begin

section \<open>JavaScript strings\<close>

text \<open>A JavaScript string is a sequence of 16-bit code units.  Literals of the source are
  written through \<open>js\<close>, which reads an ASCII literal as its code units.\<close>

type_synonym code_unit = "16 word"
type_synonym jsstring = "code_unit list"

definition js :: "string \<Rightarrow> jsstring" where
  "js s = map of_char s"

text \<open>The code units matched by \<open>\s\<close> in a regular expression and removed by
  \<open>String.prototype.trim\<close>: WhiteSpace and LineTerminator of ECMAScript.\<close>

definition isWhiteSpace :: "code_unit \<Rightarrow> bool" where
  "isWhiteSpace c \<longleftrightarrow>
     c = 0x09 \<or> c = 0x0A \<or> c = 0x0B \<or> c = 0x0C \<or> c = 0x0D \<or> c = 0x20 \<or> c = 0xA0 \<or>
     c = 0x1680 \<or> (0x2000 \<le> c \<and> c \<le> 0x200A) \<or> c = 0x2028 \<or> c = 0x2029 \<or>
     c = 0x202F \<or> c = 0x205F \<or> c = 0x3000 \<or> c = 0xFEFF"

definition isDigit :: "code_unit \<Rightarrow> bool" where
  "isDigit c \<longleftrightarrow> 0x30 \<le> c \<and> c \<le> 0x39"

definition digitVal :: "code_unit \<Rightarrow> nat" where
  "digitVal c = unat c - 48"

definition digitsVal :: "jsstring \<Rightarrow> nat" where
  "digitsVal ds = foldl (\<lambda>a c. 10 * a + digitVal c) 0 ds"

definition trimStart :: "jsstring \<Rightarrow> jsstring" where
  "trimStart s = dropWhile isWhiteSpace s"

definition trim :: "jsstring \<Rightarrow> jsstring" where
  "trim s = rev (dropWhile isWhiteSpace (rev (dropWhile isWhiteSpace s)))"

definition startsWith :: "jsstring \<Rightarrow> jsstring \<Rightarrow> bool" where
  "startsWith s p \<longleftrightarrow> take (length p) s = p"

text \<open>\<open>s.toLowerCase().includes('k')\<close> and \<open>s.toLowerCase().includes('m')\<close>.  The code
  units that Unicode lower-cases to \<open>k\<close> are \<open>k\<close>, \<open>K\<close> and U+212A (KELVIN SIGN); those
  lower-cased to \<open>m\<close> are \<open>m\<close> and \<open>M\<close>.\<close>

definition lowerIncludes_k :: "jsstring \<Rightarrow> bool" where
  "lowerIncludes_k s = list_ex (\<lambda>c. c = 0x6B \<or> c = 0x4B \<or> c = 0x212A) s"

definition lowerIncludes_m :: "jsstring \<Rightarrow> bool" where
  "lowerIncludes_m s = list_ex (\<lambda>c. c = 0x6D \<or> c = 0x4D) s"

section \<open>JavaScript numbers\<close>

text \<open>A Number is an IEEE 754 binary64 value: NaN, an infinity, or a finite value, kept
  here as the rational it denotes (the two zeros are not told apart: they are equal under
  every comparison of the program and serialise the same).\<close>

datatype jsnum = NaN | PInf | NInf | Fin rat

text \<open>\<open>ilog2 q\<close> is the binary exponent of a positive rational: \<open>2^e \<le> q < 2^(e+1)\<close>.\<close>

definition ilog2 :: "rat \<Rightarrow> int" where
  "ilog2 q = (case quotient_of q of (a, b) \<Rightarrow>
     let d = bitlen a - bitlen b
     in if 2 powi d \<le> q then d else d - 1)"

definition roundHalfEven :: "rat \<Rightarrow> int" where
  "roundHalfEven x = (let f = \<lfloor>x\<rfloor>; r = x - of_int f
     in if r < 1 / 2 then f else if 1 / 2 < r then f + 1 else if even f then f else f + 1)"

text \<open>Rounding of a positive real to binary64, to nearest with ties to even: 53 significant
  bits, exponents from -1022 (below it the spacing stays \<open>2^-1074\<close>), overflow to infinity.\<close>

definition roundPos :: "rat \<Rightarrow> jsnum" where
  "roundPos q = (let e = max (ilog2 q) (- 1022);
                     ulp = 2 powi (e - 52);
                     r = of_int (roundHalfEven (q / ulp)) * ulp
                 in if 2 ^ 1024 \<le> r then PInf else Fin r)"

fun js_neg :: "jsnum \<Rightarrow> jsnum" where
  "js_neg NaN = NaN"
| "js_neg PInf = NInf"
| "js_neg NInf = PInf"
| "js_neg (Fin q) = Fin (- q)"

definition toDouble :: "rat \<Rightarrow> jsnum" where
  "toDouble q = (if q = 0 then Fin 0 else if 0 < q then roundPos q else js_neg (roundPos (- q)))"

text \<open>Multiplication and subtraction of Numbers: the exact result, rounded.\<close>

fun js_mul :: "jsnum \<Rightarrow> jsnum \<Rightarrow> jsnum" where
  "js_mul (Fin a) (Fin b) = toDouble (a * b)"
| "js_mul NaN _ = NaN"
| "js_mul _ NaN = NaN"
| "js_mul PInf (Fin b) = (if b = 0 then NaN else if 0 < b then PInf else NInf)"
| "js_mul NInf (Fin b) = (if b = 0 then NaN else if 0 < b then NInf else PInf)"
| "js_mul (Fin a) PInf = (if a = 0 then NaN else if 0 < a then PInf else NInf)"
| "js_mul (Fin a) NInf = (if a = 0 then NaN else if 0 < a then NInf else PInf)"
| "js_mul PInf PInf = PInf"
| "js_mul PInf NInf = NInf"
| "js_mul NInf PInf = NInf"
| "js_mul NInf NInf = PInf"

fun js_sub :: "jsnum \<Rightarrow> jsnum \<Rightarrow> jsnum" where
  "js_sub (Fin a) (Fin b) = toDouble (a - b)"
| "js_sub NaN _ = NaN"
| "js_sub _ NaN = NaN"
| "js_sub PInf PInf = NaN"
| "js_sub NInf NInf = NaN"
| "js_sub PInf _ = PInf"
| "js_sub NInf _ = NInf"
| "js_sub (Fin a) PInf = NInf"
| "js_sub (Fin a) NInf = PInf"

fun isNaN :: "jsnum \<Rightarrow> bool" where
  "isNaN NaN = True"
| "isNaN _ = False"

text \<open>\<open>Math.round\<close>: the nearest integer, a tie going towards \<open>+\<infinity>\<close>.\<close>

fun Math_round :: "jsnum \<Rightarrow> jsnum" where
  "Math_round (Fin q) = Fin (of_int \<lfloor>q + 1 / 2\<rfloor>)"
| "Math_round x = x"

text \<open>The comparisons \<open>x > 0\<close>, \<open>x < 0\<close> and \<open>x >= y\<close> of Numbers; each is false when an
  operand is NaN.\<close>

fun js_gt0 :: "jsnum \<Rightarrow> bool" where
  "js_gt0 (Fin q) = (0 < q)"
| "js_gt0 PInf = True"
| "js_gt0 _ = False"

fun js_lt0 :: "jsnum \<Rightarrow> bool" where
  "js_lt0 (Fin q) = (q < 0)"
| "js_lt0 NInf = True"
| "js_lt0 _ = False"

fun js_ge :: "jsnum \<Rightarrow> jsnum \<Rightarrow> bool" where
  "js_ge NaN _ = False"
| "js_ge _ NaN = False"
| "js_ge PInf _ = True"
| "js_ge _ NInf = True"
| "js_ge NInf _ = False"
| "js_ge _ PInf = False"
| "js_ge (Fin a) (Fin b) = (b \<le> a)"

section \<open>parseInt and parseFloat\<close>

text \<open>\<open>parseInt(str, 10)\<close>: leading white space is skipped, a sign is read, and the longest
  run of decimal digits is converted; no digit at all gives NaN.\<close>

definition parseInt10 :: "jsstring \<Rightarrow> jsnum" where
  "parseInt10 str =
     (let s = trimStart str;
          neg = (s \<noteq> [] \<and> hd s = 0x2D);
          s' = (if s \<noteq> [] \<and> (hd s = 0x2B \<or> hd s = 0x2D) then tl s else s);
          z = takeWhile isDigit s'
      in if z = [] then NaN
         else let v = toDouble (of_nat (digitsVal z)) in if neg then js_neg v else v)"

text \<open>The value of an ExponentPart (\<open>e\<close> or \<open>E\<close>, an optional sign, at least one digit) at
  the head of a string; 0 when there is none.\<close>

definition parseExponent :: "jsstring \<Rightarrow> int" where
  "parseExponent r =
     (case r of
        [] \<Rightarrow> 0
      | c # r1 \<Rightarrow>
          if c = 0x65 \<or> c = 0x45 then
            (let neg = (r1 \<noteq> [] \<and> hd r1 = 0x2D);
                 r2 = (if r1 \<noteq> [] \<and> (hd r1 = 0x2B \<or> hd r1 = 0x2D) then tl r1 else r1);
                 ds = takeWhile isDigit r2
             in if ds = [] then 0 else if neg then - int (digitsVal ds) else int (digitsVal ds))
          else 0)"

text \<open>The longest prefix that is a StrUnsignedDecimalLiteral: \<open>Infinity\<close>, or digits with
  an optional fraction and exponent, or a fraction with an optional exponent.  Its decimal
  value is rounded to the nearest Number.\<close>

definition parseUnsignedDecimal :: "jsstring \<Rightarrow> jsnum" where
  "parseUnsignedDecimal s =
     (if startsWith s (js ''Infinity'') then PInf
      else
        let ip = takeWhile isDigit s;
            r1 = dropWhile isDigit s;
            dot = (r1 \<noteq> [] \<and> hd r1 = 0x2E);
            fp = (if dot then takeWhile isDigit (tl r1) else []);
            r2 = (if dot then dropWhile isDigit (tl r1) else r1)
        in if ip = [] \<and> fp = [] then NaN
           else toDouble (of_nat (digitsVal (ip @ fp)) / 10 ^ length fp * 10 powi parseExponent r2))"

definition parseFloat :: "jsstring \<Rightarrow> jsnum" where
  "parseFloat str =
     (let s = trimStart str
      in if s \<noteq> [] \<and> hd s = 0x2D then js_neg (parseUnsignedDecimal (tl s))
         else if s \<noteq> [] \<and> hd s = 0x2B then parseUnsignedDecimal (tl s)
         else parseUnsignedDecimal s)"

section \<open>parseStarCount\<close>

text \<open>\<open>starsText.replace(/[,\s]/g, '')\<close>: every comma and white-space code unit is removed.\<close>

definition stripSeparators :: "jsstring \<Rightarrow> jsstring" where
  "stripSeparators s = filter (\<lambda>c. \<not> (c = 0x2C \<or> isWhiteSpace c)) s"

definition parseStarCount :: "jsstring \<Rightarrow> jsnum" where
  "parseStarCount starsText =
     (let cleaned = stripSeparators starsText
      in if lowerIncludes_k cleaned then Math_round (js_mul (parseFloat cleaned) (Fin 1000))
         else if lowerIncludes_m cleaned then Math_round (js_mul (parseFloat cleaned) (Fin 1000000))
         else let parsed = parseInt10 cleaned in if isNaN parsed then Fin 0 else parsed)"

section \<open>Strings of the two scripts\<close>

text \<open>\<open>s.replace('/', '')\<close> with a string pattern removes the first occurrence only;
  \<open>s.split('/')\<close> cuts at every separator and always returns at least one segment.\<close>

definition slash :: code_unit where
  "slash = 0x2F"

definition replaceFirst :: "code_unit \<Rightarrow> jsstring \<Rightarrow> jsstring" where
  "replaceFirst c s = remove1 c s"

fun splitAcc :: "code_unit \<Rightarrow> jsstring \<Rightarrow> jsstring \<Rightarrow> jsstring list" where
  "splitAcc sep cur [] = [cur]"
| "splitAcc sep cur (c # cs) =
     (if c = sep then cur # splitAcc sep [] cs else splitAcc sep (cur @ [c]) cs)"

definition split :: "code_unit \<Rightarrow> jsstring \<Rightarrow> jsstring list" where
  "split sep s = splitAcc sep [] s"

text \<open>\<open>x || y\<close> on strings: the empty string is falsy.\<close>

definition orElse :: "jsstring \<Rightarrow> jsstring \<Rightarrow> jsstring" where
  "orElse x y = (if x \<noteq> [] then x else y)"

definition orNull :: "jsstring \<Rightarrow> jsstring option" where
  "orNull x = (if x \<noteq> [] then Some x else None)"

text \<open>The decimal rendering of a status code inside a template literal.\<close>

fun decimal :: "nat \<Rightarrow> jsstring" where
  "decimal n = (if n < 10 then [of_nat (48 + n)] else decimal (n div 10) @ [of_nat (48 + n mod 10)])"

declare decimal.simps [simp del]

section \<open>Repository records and sorting\<close>

record DependentRepo =
  name :: jsstring
  full_name :: jsstring
  description :: "jsstring option"
  stars :: jsnum
  url :: jsstring
  language :: "jsstring option"

record GitHubRepo = DependentRepo +
  created_at :: jsstring
  updated_at :: jsstring

text \<open>The comparator \<open>(a, b) => b.stars - a.stars\<close>.\<close>

definition byStarsDesc :: "'a DependentRepo_scheme \<Rightarrow> 'a DependentRepo_scheme \<Rightarrow> jsnum" where
  "byStarsDesc a b = js_sub (stars b) (stars a)"

text \<open>\<open>Array.prototype.sort\<close> with a comparator.  The comparison of two elements is the
  Number that the comparator returns, with NaN read as \<open>+0\<close>: a result \<open>v < 0\<close> places the
  first argument before the second, \<open>v > 0\<close> behind it, and anything else is a tie.\<close>

definition cmpLess :: "('a \<Rightarrow> 'a \<Rightarrow> jsnum) \<Rightarrow> 'a \<Rightarrow> 'a \<Rightarrow> bool" where
  "cmpLess cmp a b = js_lt0 (cmp a b)"

definition cmpGreater :: "('a \<Rightarrow> 'a \<Rightarrow> jsnum) \<Rightarrow> 'a \<Rightarrow> 'a \<Rightarrow> bool" where
  "cmpGreater cmp a b = js_gt0 (cmp a b)"

definition cmpEqual :: "('a \<Rightarrow> 'a \<Rightarrow> jsnum) \<Rightarrow> 'a \<Rightarrow> 'a \<Rightarrow> bool" where
  "cmpEqual cmp a b \<longleftrightarrow> \<not> js_lt0 (cmp a b) \<and> \<not> js_gt0 (cmp a b)"

text \<open>The language fixes the result of \<open>sort\<close> only when this comparison is a consistent
  comparator for the elements of the array: ties are reflexive, symmetric and transitive,
  and \<open><\<close> and \<open>>\<close> are transitive.\<close>

definition consistentComparator :: "('a \<Rightarrow> 'a \<Rightarrow> jsnum) \<Rightarrow> 'a list \<Rightarrow> bool" where
  "consistentComparator cmp xs \<longleftrightarrow>
     (\<forall>a\<in>set xs. cmpEqual cmp a a) \<and>
     (\<forall>a\<in>set xs. \<forall>b\<in>set xs. cmpEqual cmp a b \<longrightarrow> cmpEqual cmp b a) \<and>
     (\<forall>a\<in>set xs. \<forall>b\<in>set xs. \<forall>c\<in>set xs.
        (cmpEqual cmp a b \<and> cmpEqual cmp b c \<longrightarrow> cmpEqual cmp a c) \<and>
        (cmpLess cmp a b \<and> cmpLess cmp b c \<longrightarrow> cmpLess cmp a c) \<and>
        (cmpGreater cmp a b \<and> cmpGreater cmp b c \<longrightarrow> cmpGreater cmp a c))"

text \<open>For a consistent comparator the result is the stable sort, the same in every engine.
  It is written here as insertion from the right, an element moving behind exactly those it
  compares greater than (a rearrangement in which no element compares greater than a later
  one and ties keep their order: \<open>mset_stableSort\<close>, \<open>stableSort_sorted\<close>,
  \<open>stableSort_stable\<close>).\<close>

fun insertSorted :: "('a \<Rightarrow> 'a \<Rightarrow> jsnum) \<Rightarrow> 'a \<Rightarrow> 'a list \<Rightarrow> 'a list" where
  "insertSorted cmp x [] = [x]"
| "insertSorted cmp x (y # ys) =
     (if js_gt0 (cmp x y) then y # insertSorted cmp x ys else x # y # ys)"

definition stableSort :: "('a \<Rightarrow> 'a \<Rightarrow> jsnum) \<Rightarrow> 'a list \<Rightarrow> 'a list" where
  "stableSort cmp xs = foldr (insertSorted cmp) xs []"

text \<open>For any other comparator the order is implementation-defined.  It is then taken
  from the parameter \<open>engine\<close>, which stands for the sorting routine of the JavaScript
  engine that runs the script.  An engine only moves the elements of the array: a
  parameter that returns anything but a rearrangement stands for no engine, and the array
  is then left as it is.\<close>

type_synonym 'a engine = "('a \<Rightarrow> 'a \<Rightarrow> jsnum) \<Rightarrow> 'a list \<Rightarrow> 'a list"

definition array_sort :: "'a engine \<Rightarrow> ('a \<Rightarrow> 'a \<Rightarrow> jsnum) \<Rightarrow> 'a list \<Rightarrow> 'a list" where
  "array_sort engine cmp xs =
     (if consistentComparator cmp xs then stableSort cmp xs
      else if mset (engine cmp xs) = mset xs then engine cmp xs
      else xs)"

text \<open>A list of star counts is non-increasing when each element is \<open>>=\<close> its successor.\<close>

fun nonIncreasing :: "jsnum list \<Rightarrow> bool" where
  "nonIncreasing [] = True"
| "nonIncreasing [x] = True"
| "nonIncreasing (x # y # r) = (js_ge x y \<and> nonIncreasing (y # r))"

section \<open>HTTP\<close>

text \<open>What the scripts read of a \<open>fetch\<close> response: the status line, the raw body
  (\<open>response.text()\<close>) and the decoded body (\<open>response.json()\<close>, or the parsed document);
  a body is \<open>None\<close> when reading or decoding it throws.  A \<open>fetch\<close> that rejects is
  \<open>None\<close> as a whole.\<close>

record 'a Response =
  status :: nat
  statusText :: jsstring
  body_text :: "jsstring option"
  body :: "'a option"

definition ok :: "('a, 'b) Response_scheme \<Rightarrow> bool" where
  "ok r \<longleftrightarrow> 200 \<le> status r \<and> status r \<le> 299"

text \<open>What a run leaves behind: a fatal exit (\<open>console.error\<close> and \<open>process.exit(1)\<close>,
  nothing written), or the array written to the output path (writing the file is taken to
  succeed).\<close>

datatype js_error =
    MissingToken
  | FetchRejected
  | BodyUnreadable
  | Error jsstring

datatype 'r result =
    Fatal js_error
  | Written jsstring "'r list"

fun exit_code :: "'r result \<Rightarrow> nat" where
  "exit_code (Fatal e) = 1"
| "exit_code (Written p rs) = 0"

fun output_file :: "'r result \<Rightarrow> (jsstring \<times> 'r list) option" where
  "output_file (Fatal e) = None"
| "output_file (Written p rs) = Some (p, rs)"

section \<open>The code-search collector\<close>

record CodeSearchItem =
  repository_full_name :: jsstring

record GitHubCodeSearchResponse =
  total_count :: nat
  items :: "CodeSearchItem list"

record RepoData =
  rd_name :: jsstring
  rd_full_name :: jsstring
  rd_description :: "jsstring option"
  stargazers_count :: jsnum
  html_url :: jsstring
  rd_language :: "jsstring option"
  rd_created_at :: jsstring
  rd_updated_at :: jsstring

datatype request =
    SearchCode nat nat
  | GetRepo jsstring

text \<open>The environment of the collector: \<open>process.env.GITHUB_TOKEN\<close>, the code-search
  endpoint by \<open>per_page\<close> and \<open>page\<close>, and the repository endpoint by full name.\<close>

record GitHub =
  token :: "jsstring option"
  search_code :: "nat \<Rightarrow> nat \<Rightarrow> GitHubCodeSearchResponse Response option"
  repos :: "jsstring \<Rightarrow> RepoData Response option"

definition maxPages :: nat where
  "maxPages = 10"

definition perPage :: nat where
  "perPage = 100"

text \<open>\<open>Set.prototype.add\<close>: a \<open>Set\<close> keeps its elements in insertion order.\<close>

definition set_add :: "jsstring list \<Rightarrow> jsstring \<Rightarrow> jsstring list" where
  "set_add names n = (if n \<in> set names then names else names @ [n])"

definition apiErrorMessage :: "nat \<Rightarrow> jsstring \<Rightarrow> jsstring \<Rightarrow> jsstring" where
  "apiErrorMessage st stText errorText =
     js ''GitHub API error: '' @ decimal st @ js '' '' @ stText @ [0x0A] @ errorText"

text \<open>The paging loop, from \<open>page\<close> on, with the names and the requests so far.  The
  result is the thrown error or the set of names, beside the requests issued.  The pause
  between two requests is left out.\<close>

function searchLoop ::
  "GitHub \<Rightarrow> nat \<Rightarrow> jsstring list \<Rightarrow> request list \<Rightarrow> request list \<times> (js_error + jsstring list)" where
  "searchLoop w page uniqueRepoNames trace =
     (if page \<le> maxPages then
        (case search_code w perPage page of
           None \<Rightarrow> (trace @ [SearchCode perPage page], Inl FetchRejected)
         | Some response \<Rightarrow>
             if \<not> ok response then
               (case body_text response of
                  None \<Rightarrow> (trace @ [SearchCode perPage page], Inl BodyUnreadable)
                | Some errorText \<Rightarrow>
                    (trace @ [SearchCode perPage page],
                     Inl (Error (apiErrorMessage (status response) (statusText response) errorText))))
             else
               (case body response of
                  None \<Rightarrow> (trace @ [SearchCode perPage page], Inl BodyUnreadable)
                | Some data \<Rightarrow>
                    if length (items data) < perPage then
                      (trace @ [SearchCode perPage page],
                       Inr (foldl set_add uniqueRepoNames (map repository_full_name (items data))))
                    else
                      searchLoop w (page + 1)
                        (foldl set_add uniqueRepoNames (map repository_full_name (items data)))
                        (trace @ [SearchCode perPage page])))
      else (trace, Inr uniqueRepoNames))"
  by pat_completeness auto
termination
  by (relation "measure (\<lambda>(w, page, names, trace). Suc maxPages - page)") auto

declare searchLoop.simps [simp del]

definition toGitHubRepo :: "RepoData \<Rightarrow> GitHubRepo" where
  "toGitHubRepo repoData =
     \<lparr>name = rd_name repoData, full_name = rd_full_name repoData,
      description = rd_description repoData, stars = stargazers_count repoData,
      url = html_url repoData, language = rd_language repoData,
      created_at = rd_created_at repoData, updated_at = rd_updated_at repoData\<rparr>"

text \<open>The detail loop over the names: a rejected fetch or an undecodable body is caught and
  logged, a non-success response is passed over; in each case the loop goes on.\<close>

fun fetchDetails ::
  "GitHub \<Rightarrow> jsstring list \<Rightarrow> request list \<Rightarrow> GitHubRepo list \<Rightarrow> request list \<times> GitHubRepo list" where
  "fetchDetails w [] trace repositories = (trace, repositories)"
| "fetchDetails w (fullName # rest) trace repositories =
     (case repos w fullName of
        None \<Rightarrow> fetchDetails w rest (trace @ [GetRepo fullName]) repositories
      | Some repoResponse \<Rightarrow>
          if ok repoResponse then
            (case body repoResponse of
               None \<Rightarrow> fetchDetails w rest (trace @ [GetRepo fullName]) repositories
             | Some repoData \<Rightarrow>
                 fetchDetails w rest (trace @ [GetRepo fullName])
                   (repositories @ [toGitHubRepo repoData]))
          else fetchDetails w rest (trace @ [GetRepo fullName]) repositories)"

definition searchViemRepos :: "GitHubRepo engine \<Rightarrow> GitHub \<Rightarrow> request list \<times> GitHubRepo result" where
  "searchViemRepos engine w =
     (if token w = None \<or> token w = Some [] then ([], Fatal MissingToken)
      else
        (case searchLoop w 1 [] [] of
           (trace, Inl err) \<Rightarrow> (trace, Fatal err)
         | (trace, Inr uniqueRepoNames) \<Rightarrow>
             (case fetchDetails w uniqueRepoNames trace [] of
                (trace', repositories) \<Rightarrow>
                  (trace', Written (js ''./viem_repositories.json'')
                             (array_sort engine byStarsDesc repositories)))))"

section \<open>The dependents-page scraper\<close>

text \<open>What the selectors of the loop body read from a fetched document: for each
  \<open>.Box-row\<close> the \<open>href\<close> of its first repository link (\<open>None\<close> without link or
  attribute) and three texts; the \<open>href\<close> of the Next control and whether it carries the
  class \<open>disabled\<close>.\<close>

record RepoBox =
  repo_href :: "jsstring option"
  description_text :: jsstring
  stars_text :: jsstring
  language_text :: jsstring

record Page =
  boxes :: "RepoBox list"
  next_href :: "jsstring option"
  next_disabled :: bool

text \<open>The body of \<open>repoBoxes.each\<close>: the record pushed for a box, if any.  On these
  texts no step of the body throws, so its \<open>catch\<close> branch is never taken.\<close>

definition parseBox :: "RepoBox \<Rightarrow> DependentRepo option" where
  "parseBox box =
     (let fullName = (case repo_href box of
                        None \<Rightarrow> []
                      | Some href \<Rightarrow> orElse (trim (replaceFirst slash href)) []);
          url' = (if fullName \<noteq> [] then js ''https://github.com/'' @ fullName else []);
          description' = orNull (trim (description_text box));
          starsText = trim (stars_text box);
          stars' = parseStarCount starsText;
          language' = orNull (trim (language_text box))
      in if fullName \<noteq> [] then
           Some \<lparr>name = (case split slash fullName of
                           owner # name' # _ \<Rightarrow> orElse name' fullName
                         | _ \<Rightarrow> fullName),
                 full_name = fullName, description = description', stars = stars',
                 url = url', language = language'\<rparr>
         else None)"

text \<open>The records that \<open>repoBoxes.each\<close> pushes for one document, in document order.\<close>

definition pageRecords :: "Page \<Rightarrow> DependentRepo list" where
  "pageRecords page = List.map_filter parseBox (boxes page)"

text \<open>The environment of the scraper: the outcome of the \<open>n\<close>-th \<open>fetch\<close> for a URL (the
  loop issues its \<open>n\<close>-th request while \<open>currentPage = n\<close>).\<close>

type_synonym Web = "nat \<Rightarrow> jsstring \<Rightarrow> Page Response option"

definition nextUrl :: "jsstring \<Rightarrow> jsstring" where
  "nextUrl nextHref =
     (if startsWith nextHref (js ''http'') then nextHref else js ''https://github.com'' @ nextHref)"

text \<open>The \<open>while\<close> loop.  With \<open>maxPages = Infinity\<close> it need not end, so its result is
  optional: \<open>None\<close> is a run that never leaves the loop.  The result carries the URLs
  fetched beside the accumulated records.  The pause between two requests is left out.\<close>

partial_function (option) scrapeLoop ::
  "Web \<Rightarrow> enat \<Rightarrow> nat \<Rightarrow> jsstring option \<Rightarrow> jsstring list \<Rightarrow> DependentRepo list
     \<Rightarrow> (jsstring list \<times> DependentRepo list) option" where
  "scrapeLoop web maxPages' currentPage nextPageUrl fetched repositories =
     (case nextPageUrl of
        None \<Rightarrow> Some (fetched, repositories)
      | Some u \<Rightarrow>
          if enat currentPage \<le> maxPages' \<and> u \<noteq> [] then
            (case web currentPage u of
               None \<Rightarrow> Some (fetched @ [u], repositories)
             | Some response \<Rightarrow>
                 if \<not> ok response then Some (fetched @ [u], repositories)
                 else
                   (case body response of
                      None \<Rightarrow> Some (fetched @ [u], repositories)
                    | Some page \<Rightarrow>
                        if boxes page = [] then Some (fetched @ [u], repositories)
                        else
                          (case next_href page of
                             None \<Rightarrow>
                               Some (fetched @ [u],
                                     repositories @ pageRecords page)
                           | Some nextHref \<Rightarrow>
                               if nextHref = [] \<or> next_disabled page then
                                 Some (fetched @ [u],
                                       repositories @ pageRecords page)
                               else
                                 scrapeLoop web maxPages' (currentPage + 1)
                                   (Some (nextUrl nextHref)) (fetched @ [u])
                                   (repositories @ pageRecords page))))
          else Some (fetched, repositories))"

definition baseUrl :: "jsstring \<Rightarrow> jsstring \<Rightarrow> jsstring" where
  "baseUrl owner repo = js ''https://github.com/'' @ owner @ js ''/'' @ repo @ js ''/network/dependents''"

definition scrapeGitHubDependents ::
  "DependentRepo engine \<Rightarrow> Web \<Rightarrow> jsstring \<Rightarrow> jsstring \<Rightarrow> enat
     \<Rightarrow> (jsstring list \<times> DependentRepo list) option" where
  "scrapeGitHubDependents engine web owner repo maxPages' =
     (case scrapeLoop web maxPages' 1 (Some (baseUrl owner repo)) [] [] of
        None \<Rightarrow> None
      | Some (fetched, repositories) \<Rightarrow> Some (fetched, array_sort engine byStarsDesc repositories))"

definition main :: "DependentRepo engine \<Rightarrow> Web \<Rightarrow> (jsstring list \<times> DependentRepo result) option" where
  "main engine web =
     (case scrapeGitHubDependents engine web (js ''wevm'') (js ''viem'') \<infinity> of
        None \<Rightarrow> None
      | Some (fetched, repositories) \<Rightarrow>
          Some (fetched, Written (js ''./viem_dependents_scraped.json'') repositories))"

section \<open>Describing runs\<close>

text \<open>\<open>follow web n u ps\<close> describes an environment in which the requests numbered
  \<open>n, n + 1, \<dots>\<close>, starting at the URL \<open>u\<close>, are answered by the documents \<open>ps\<close> in turn,
  each with a success status, at least one row and an enabled Next link.  It returns the
  URLs requested for them and the URL the last Next link leads to.\<close>

fun follow :: "Web \<Rightarrow> nat \<Rightarrow> jsstring \<Rightarrow> Page list \<Rightarrow> (jsstring list \<times> jsstring) option" where
  "follow web n u [] = Some ([], u)"
| "follow web n u (p # ps) =
     (case web n u of
        None \<Rightarrow> None
      | Some r \<Rightarrow>
          if u \<noteq> [] \<and> ok r \<and> body r = Some p \<and> boxes p \<noteq> [] then
            (case next_href p of
               None \<Rightarrow> None
             | Some h \<Rightarrow>
                 if h \<noteq> [] \<and> \<not> next_disabled p then
                   (case follow web (Suc n) (nextUrl h) ps of
                      None \<Rightarrow> None
                    | Some (us, u') \<Rightarrow> Some (u # us, u'))
                 else None)
          else None)"

definition recordsOf :: "Page list \<Rightarrow> DependentRepo list" where
  "recordsOf ps = concat (map pageRecords ps)"

text \<open>The documents that the requests of a run were answered with: request number \<open>n\<close>
  goes to the first URL of the list; a request that is rejected, answered with a
  non-success status or whose body cannot be read brings no document.\<close>

fun documentsFrom :: "Web \<Rightarrow> nat \<Rightarrow> jsstring list \<Rightarrow> Page list" where
  "documentsFrom web n [] = []"
| "documentsFrom web n (u # us) =
     (case web n u of
        None \<Rightarrow> documentsFrom web (Suc n) us
      | Some r \<Rightarrow>
          if ok r then
            (case body r of
               None \<Rightarrow> documentsFrom web (Suc n) us
             | Some p \<Rightarrow> p # documentsFrom web (Suc n) us)
          else documentsFrom web (Suc n) us)"

definition documentsOf :: "Web \<Rightarrow> jsstring list \<Rightarrow> Page list" where
  "documentsOf web fetched = documentsFrom web 1 fetched"

text \<open>A document after which the loop must not fetch again: no row, or no usable Next
  control.\<close>

definition terminalPage :: "Page \<Rightarrow> bool" where
  "terminalPage p \<longleftrightarrow>
     boxes p = [] \<or> next_href p = None \<or> next_href p = Some [] \<or> next_disabled p"

text \<open>The request number \<open>n\<close>, for the URL \<open>u\<close>, is the last one of a run, and \<open>final\<close> are
  the documents it brings: none when it is rejected, answered with a non-success status or
  unreadable; the document itself when that has no row or no usable Next control.\<close>

definition endsWith :: "Web \<Rightarrow> nat \<Rightarrow> jsstring \<Rightarrow> Page list \<Rightarrow> bool" where
  "endsWith web n u final =
     (case web n u of
        None \<Rightarrow> final = []
      | Some r \<Rightarrow>
          if ok r then
            (case body r of
               None \<Rightarrow> final = []
             | Some p \<Rightarrow> terminalPage p \<and> final = [p])
          else final = [])"


text \<open>The segment of a full name between its first and its second \<open>/\<close>.\<close>

definition secondSegment :: "jsstring \<Rightarrow> jsstring" where
  "secondSegment s = takeWhile (\<lambda>c. c \<noteq> slash) (tl (dropWhile (\<lambda>c. c \<noteq> slash) s))"

text \<open>The search requests (\<open>per_page\<close> and \<open>page\<close>) and the detail requests of a trace.\<close>

fun searchRequests :: "request list \<Rightarrow> (nat \<times> nat) list" where
  "searchRequests [] = []"
| "searchRequests (SearchCode pp p # rs) = (pp, p) # searchRequests rs"
| "searchRequests (GetRepo n # rs) = searchRequests rs"

fun detailNames :: "request list \<Rightarrow> jsstring list" where
  "detailNames [] = []"
| "detailNames (SearchCode pp p # rs) = detailNames rs"
| "detailNames (GetRepo n # rs) = n # detailNames rs"

text \<open>The record that the detail request for a name contributes, if any.\<close>

definition detailRecord :: "GitHub \<Rightarrow> jsstring \<Rightarrow> GitHubRepo option" where
  "detailRecord w n =
     (case repos w n of
        None \<Rightarrow> None
      | Some r \<Rightarrow> if ok r then map_option toGitHubRepo (body r) else None)"

text \<open>A search page that is answered with success, decodes, and carries at least
  \<open>perPage\<close> items: after it the paging loop goes on.\<close>

definition fullPage :: "GitHub \<Rightarrow> nat \<Rightarrow> bool" where
  "fullPage w p =
     (case search_code w perPage p of
        None \<Rightarrow> False
      | Some r \<Rightarrow> ok r \<and> (case body r of None \<Rightarrow> False | Some d \<Rightarrow> perPage \<le> length (items d)))"

text \<open>A star count as the data model has it: an integer, or an infinity; not NaN.\<close>

fun wholeCount :: "jsnum \<Rightarrow> bool" where
  "wholeCount NaN = False"
| "wholeCount (Fin q) = (q \<in> \<int>)"
| "wholeCount PInf = True"
| "wholeCount NInf = True"

section \<open>Example environments\<close>

text \<open>An engine that sorts by insertion whatever the comparator.\<close>

definition insertionEngine :: "'a engine" where
  "insertionEngine cmp xs = stableSort cmp xs"

text \<open>A row with a repository link and a star text, and a success response carrying a
  document.\<close>

definition rowOf :: "jsstring \<Rightarrow> jsstring \<Rightarrow> RepoBox" where
  "rowOf href starsText =
     \<lparr>repo_href = Some href, description_text = [], stars_text = starsText, language_text = []\<rparr>"

definition okPage :: "Page \<Rightarrow> Page Response" where
  "okPage p = \<lparr>status = 200, statusText = js ''OK'', body_text = None, body = Some p\<rparr>"

definition failed :: "nat \<Rightarrow> 'a Response" where
  "failed st = \<lparr>status = st, statusText = [], body_text = Some (js ''denied''), body = None\<rparr>"

definition viemUrl :: jsstring where
  "viemUrl = baseUrl (js ''wevm'') (js ''viem'')"

text \<open>One document, no Next control, two rows whose star texts are \<open>k\<close> and \<open>7\<close>.\<close>

definition pageNaN :: Page where
  "pageNaN = \<lparr>boxes = [rowOf (js ''/a/b'') (js ''k''), rowOf (js ''/c/d'') (js ''7'')],
              next_href = None, next_disabled = False\<rparr>"

definition webNaN :: Web where
  "webNaN n u = (if n = 1 \<and> u = viemUrl then Some (okPage pageNaN) else None)"

text \<open>One document, no Next control, the same repository in two rows.\<close>

definition pageDup :: Page where
  "pageDup = \<lparr>boxes = [rowOf (js ''/a/b'') [], rowOf (js ''/a/b'') []],
              next_href = None, next_disabled = False\<rparr>"

definition webDup :: Web where
  "webDup n u = (if n = 1 \<and> u = viemUrl then Some (okPage pageDup) else None)"

definition repoOf :: "jsstring \<Rightarrow> jsstring \<Rightarrow> jsnum \<Rightarrow> DependentRepo" where
  "repoOf nm full st =
     \<lparr>name = nm, full_name = full, description = None, stars = st,
      url = js ''https://github.com/'' @ full, language = None\<rparr>"

text \<open>A first document with one row and an enabled Next link, followed either by a
  response with status 500 or by a document without rows (which still shows a Next link).\<close>

definition pageNext :: Page where
  "pageNext = \<lparr>boxes = [rowOf (js ''/a/b'') []], next_href = Some (js ''/p2''),
               next_disabled = False\<rparr>"

definition pageEmpty :: Page where
  "pageEmpty = \<lparr>boxes = [], next_href = Some (js ''/p3''), next_disabled = False\<rparr>"

definition webFail :: Web where
  "webFail n u =
     (if n = 1 \<and> u = viemUrl then Some (okPage pageNext)
      else if n = 2 \<and> u = js ''https://github.com/p2'' then Some (failed 500)
      else None)"

definition webEmptySecond :: Web where
  "webEmptySecond n u =
     (if n = 1 \<and> u = viemUrl then Some (okPage pageNext)
      else if n = 2 \<and> u = js ''https://github.com/p2'' then Some (okPage pageEmpty)
      else Some (okPage pageNext))"

text \<open>One document whose only row links to \<open>/a/\<close>.\<close>

definition pageSlash :: Page where
  "pageSlash = \<lparr>boxes = [rowOf (js ''/a/'') []], next_href = None, next_disabled = False\<rparr>"

definition webSlash :: Web where
  "webSlash n u = (if n = 1 \<and> u = viemUrl then Some (okPage pageSlash) else None)"

text \<open>Environments of the collector: search items for a list of names, success responses,
  and a repository description with a given full name and star count.\<close>

definition itemsOf :: "jsstring list \<Rightarrow> CodeSearchItem list" where
  "itemsOf names = map (\<lambda>n. \<lparr>repository_full_name = n\<rparr>) names"

definition okSearch :: "CodeSearchItem list \<Rightarrow> GitHubCodeSearchResponse Response" where
  "okSearch its =
     \<lparr>status = 200, statusText = js ''OK'', body_text = None,
      body = Some \<lparr>total_count = length its, items = its\<rparr>\<rparr>"

definition repoData :: "jsstring \<Rightarrow> jsnum \<Rightarrow> RepoData" where
  "repoData full st =
     \<lparr>rd_name = full, rd_full_name = full, rd_description = None, stargazers_count = st,
      html_url = js ''https://github.com/'' @ full, rd_language = None,
      rd_created_at = [], rd_updated_at = []\<rparr>"

definition okRepo :: "RepoData \<Rightarrow> RepoData Response" where
  "okRepo d = \<lparr>status = 200, statusText = js ''OK'', body_text = None, body = Some d\<rparr>"

text \<open>One short search page naming \<open>a/b\<close>, \<open>c/d\<close> and \<open>a/b\<close> again; the detail request for
  \<open>a/b\<close> succeeds and every other one is answered with status 404.\<close>

definition worldSmall :: GitHub where
  "worldSmall =
     \<lparr>token = Some (js ''t''),
      search_code = (\<lambda>pp p. if pp = 100 \<and> p = 1
                       then Some (okSearch (itemsOf [js ''a/b'', js ''c/d'', js ''a/b'']))
                       else None),
      repos = (\<lambda>n. if n = js ''a/b'' then Some (okRepo (repoData (js ''a/b'') (Fin 5)))
                    else Some (failed 404))\<rparr>"

text \<open>The first search page is answered with status 403.\<close>

definition world403 :: GitHub where
  "world403 =
     \<lparr>token = Some (js ''t''),
      search_code = (\<lambda>pp p. Some (failed 403)),
      repos = (\<lambda>n. Some (okRepo (repoData n (Fin 0))))\<rparr>"

text \<open>Two names found; the repository endpoint describes the same repository \<open>x/y\<close> for
  both.\<close>

definition worldAlias :: GitHub where
  "worldAlias =
     \<lparr>token = Some (js ''t''),
      search_code = (\<lambda>pp p. if pp = 100 \<and> p = 1
                       then Some (okSearch (itemsOf [js ''a/b'', js ''c/d'']))
                       else None),
      repos = (\<lambda>n. Some (okRepo (repoData (js ''x/y'') (Fin 0))))\<rparr>"

text \<open>100 items on page 1 and 40 on page 2, all of different repositories.\<close>

definition nameNo :: "nat \<Rightarrow> jsstring" where
  "nameNo i = js ''o/'' @ replicate (Suc i) 0x72"

definition world140 :: GitHub where
  "world140 =
     \<lparr>token = Some (js ''t''),
      search_code = (\<lambda>pp p. if pp = 100 \<and> p = 1 then Some (okSearch (itemsOf (map nameNo [0..<100])))
                       else if pp = 100 \<and> p = 2
                       then Some (okSearch (itemsOf (map nameNo [100..<140])))
                       else None),
      repos = (\<lambda>n. Some (okRepo (repoData n (Fin 0))))\<rparr>"

text \<open>A first document whose two rows have the star texts \<open>k\<close> and \<open>7\<close>, with an enabled
  Next link; the second request is answered with status 500.\<close>

definition pageNaNNext :: Page where
  "pageNaNNext = \<lparr>boxes = [rowOf (js ''/a/b'') (js ''k''), rowOf (js ''/c/d'') (js ''7'')],
                  next_href = Some (js ''/p2''), next_disabled = False\<rparr>"

definition webFailNaN :: Web where
  "webFailNaN n u =
     (if n = 1 \<and> u = viemUrl then Some (okPage pageNaNNext)
      else if n = 2 \<and> u = js ''https://github.com/p2'' then Some (failed 500)
      else None)"

text \<open>One document, no Next control, two rows whose star texts are \<open>m\<close> and \<open>3\<close>; every
  further request would be answered with the same document.\<close>

definition pageNaNLast :: Page where
  "pageNaNLast = \<lparr>boxes = [rowOf (js ''/e/f'') (js ''m''), rowOf (js ''/g/h'') (js ''3'')],
                  next_href = None, next_disabled = False\<rparr>"

definition webNaNLast :: Web where
  "webNaNLast n u = Some (okPage pageNaNLast)"

text \<open>One short search page naming \<open>a/b\<close>, \<open>c/d\<close> and \<open>a/b\<close> again; the repository endpoint
  describes each repository under the name it is asked for.\<close>

definition worldTwo :: GitHub where
  "worldTwo =
     \<lparr>token = Some (js ''t''),
      search_code = (\<lambda>pp p. if pp = 100 \<and> p = 1
                       then Some (okSearch (itemsOf [js ''a/b'', js ''c/d'', js ''a/b'']))
                       else None),
      repos = (\<lambda>n. Some (okRepo (repoData n (Fin 0))))\<rparr>"


section \<open>Rounding to binary64\<close>


lemma ilog2_lower: assumes "0 < q" shows "2 powi (ilog2 q) \<le> q"
proof -
  obtain a b where ab: "quotient_of q = (a, b)" by (cases "quotient_of q")
  have b: "0 < b" using ab quotient_of_denom_pos by blast
  have q: "q = of_int a / of_int b" using ab quotient_of_div by blast
  have a: "0 < a" using assms b q by (simp add: zero_less_divide_iff)
  let ?d = "bitlen a - bitlen b"
  show ?thesis
  proof (cases "2 powi ?d \<le> q")
    case True then show ?thesis by (simp add: ilog2_def ab)
  next
    case False
    have la: "(2::int) ^ nat (bitlen a - 1) \<le> a" using bitlen_bounds[OF a] by simp
    have ub: "b < 2 ^ nat (bitlen b)" using bitlen_bounds[OF b] by simp
    have bl: "0 < bitlen a" "0 < bitlen b"
      using a b bitlen_nonneg[of a] bitlen_nonneg[of b] bitlen_eq_zero_iff[of a] bitlen_eq_zero_iff[of b]
      by linarith+
    have "(2::rat) powi (?d - 1) = 2 powi (bitlen a - 1) / 2 powi (bitlen b)"
      by (simp add: power_int_diff)
    also have "\<dots> = 2 ^ nat (bitlen a - 1) / 2 ^ nat (bitlen b)"
      using bl by (simp add: power_int_def)
    also have "\<dots> \<le> of_int a / of_int b"
    proof (rule frac_le)
      show "(2::rat) ^ nat (bitlen a - 1) \<le> of_int a" using la by (metis of_int_le_iff of_int_numeral of_int_power)
      show "of_int b \<le> (2::rat) ^ nat (bitlen b)" using ub by (metis less_imp_le of_int_le_iff of_int_numeral of_int_power)
      show "(0::rat) < of_int b" using b by simp
      show "(0::rat) \<le> of_int a" using a by simp
    qed
    finally have "2 powi (?d - 1) \<le> q" by (simp add: q)
    moreover have "ilog2 q = ?d - 1" using False by (simp add: ilog2_def ab)
    ultimately show ?thesis by simp
  qed
qed

lemma ilog2_upper: assumes "0 < q" shows "q < 2 powi (ilog2 q + 1)"
proof -
  obtain a b where ab: "quotient_of q = (a, b)" by (cases "quotient_of q")
  have b: "0 < b" using ab quotient_of_denom_pos by blast
  have q: "q = of_int a / of_int b" using ab quotient_of_div by blast
  have a: "0 < a" using assms b q by (simp add: zero_less_divide_iff)
  let ?d = "bitlen a - bitlen b"
  show ?thesis
  proof (cases "2 powi ?d \<le> q")
    case False then show ?thesis by (simp add: ilog2_def ab)
  next
    case True
    have ua: "a < 2 ^ nat (bitlen a)" using bitlen_bounds[OF a] by simp
    have lb: "(2::int) ^ nat (bitlen b - 1) \<le> b" using bitlen_bounds[OF b] by simp
    have bl: "0 < bitlen a" "0 < bitlen b"
      using a b bitlen_nonneg[of a] bitlen_nonneg[of b] bitlen_eq_zero_iff[of a] bitlen_eq_zero_iff[of b]
      by linarith+
    have "of_int a / of_int b < (2::rat) ^ nat (bitlen a) / 2 ^ nat (bitlen b - 1)"
    proof (rule frac_less)
      show "of_int a < (2::rat) ^ nat (bitlen a)" using ua by (metis of_int_less_iff of_int_numeral of_int_power)
      show "(2::rat) ^ nat (bitlen b - 1) \<le> of_int b" using lb by (metis of_int_le_iff of_int_numeral of_int_power)
      show "(0::rat) \<le> of_int a" using a by simp
      show "(0::rat) < 2 ^ nat (bitlen b - 1)" by simp
    qed
    also have "\<dots> = 2 powi (bitlen a) / 2 powi (bitlen b - 1)"
      using bl by (simp add: power_int_def)
    also have "\<dots> = 2 powi (?d + 1)"
      by (simp add: power_int_diff power_int_add)
    finally have "q < 2 powi (?d + 1)" by (simp add: q)
    moreover have "ilog2 q = ?d" using True by (simp add: ilog2_def ab)
    ultimately show ?thesis by simp
  qed
qed

lemma powi2_mono: "e \<le> e' \<Longrightarrow> (2::rat) powi e \<le> 2 powi e'"
  by (rule power_int_increasing) simp_all


lemma ilog2_le: assumes "0 < q" "q < 2 powi n" shows "ilog2 q < n"
proof (rule ccontr)
  assume "\<not> ilog2 q < n"
  then have "(2::rat) powi n \<le> 2 powi (ilog2 q)" by (intro powi2_mono) simp
  with ilog2_lower[OF assms(1)] assms(2) show False by simp
qed

lemma ilog2_ge: assumes "0 < q" "2 powi n \<le> q" shows "n \<le> ilog2 q"
proof (rule ccontr)
  assume "\<not> n \<le> ilog2 q"
  then have "(2::rat) powi (ilog2 q + 1) \<le> 2 powi n" by (intro powi2_mono) simp
  with ilog2_upper[OF assms(1)] assms(2) show False by simp
qed

lemma floor_rat_numeral:
  "\<lfloor>numeral a / numeral b :: rat\<rfloor> = numeral a div numeral b"
  using floor_divide_of_int_eq[of "numeral a" "numeral b", where ?'a = rat] by simp

lemma roundHalfEven_of_int [simp]: "roundHalfEven (of_int k) = k"
  by (simp add: roundHalfEven_def)

lemma roundHalfEven_nonneg: "0 \<le> x \<Longrightarrow> 0 \<le> roundHalfEven x"
  by (auto simp: roundHalfEven_def Let_def)


lemma roundPos_int_exact:
  assumes "0 < k" "k < 2 ^ 53"
  shows "roundPos (of_int k) = Fin (of_int k)"
proof -
  let ?q = "of_int k :: rat"
  have q: "0 < ?q" using assms by simp
  have "?q < 2 powi 53" using assms(2) by (metis of_int_less_iff of_int_numeral of_int_power power_int_numeral)
  then have le: "ilog2 ?q < 53" using ilog2_le[OF q] by simp
  define e where "e = max (ilog2 ?q) (- 1022)"
  define n where "n = nat (52 - e)"
  have e: "e - 52 = - int n" using le by (simp add: e_def n_def)
  have ulp: "(2::rat) powi (e - 52) = 1 / 2 ^ n"
    unfolding e by (simp add: power_int_minus_divide)
  have "?q / (2 powi (e - 52)) = of_int (k * 2 ^ n)" by (simp add: ulp)
  then have rh: "roundHalfEven (?q / (2 powi (e - 52))) = k * 2 ^ n"
    by (metis roundHalfEven_of_int)
  have small: "\<not> (2::rat) ^ 1024 \<le> of_int k"
  proof -
    have "of_int k < (2::rat) ^ 53" using assms(2) by (metis of_int_less_iff of_int_numeral of_int_power)
    also have "\<dots> \<le> 2 ^ 1024" by (rule power_increasing) simp_all
    finally show ?thesis by simp
  qed
  show ?thesis
    unfolding roundPos_def Let_def e_def[symmetric] rh
    using small by (simp add: ulp)
qed

lemma toDouble_of_nat: "n < 2 ^ 53 \<Longrightarrow> toDouble (of_nat n) = Fin (of_nat n)"
proof (cases "n = 0")
  case True then show ?thesis by (simp add: toDouble_def)
next
  case False
  assume "n < 2 ^ 53"
  then have "int n < 2 ^ 53" by (metis of_nat_less_iff of_nat_numeral of_nat_power)
  with False have "roundPos (of_int (int n)) = Fin (of_int (int n))"
    by (intro roundPos_int_exact) simp_all
  with False show ?thesis by (simp add: toDouble_def)
qed

lemma toDouble_numeral: "(numeral w :: nat) < 2 ^ 53 \<Longrightarrow> toDouble (numeral w) = Fin (numeral w)"
  using toDouble_of_nat[of "numeral w"] by simp


lemma roundPos_big_integral:
  assumes "2 ^ 53 \<le> q"
  shows "roundPos q = PInf \<or> (\<exists>m::nat. roundPos q = Fin (of_nat m))"
proof -
  have q: "0 < q" by (rule less_le_trans[OF _ assms]) simp
  have "(2::rat) powi 53 \<le> q" using assms by simp
  then have ge: "53 \<le> ilog2 q" by (rule ilog2_ge[OF q])
  define k where "k = nat (ilog2 q - 52)"
  have e: "max (ilog2 q) (- 1022) - 52 = int k" using ge by (simp add: k_def)
  have ulp: "(2::rat) powi (max (ilog2 q) (- 1022) - 52) = 2 ^ k" unfolding e by simp
  define m where "m = roundHalfEven (q / 2 ^ k)"
  define B :: rat where "B = 2 ^ 1024"
  have "0 \<le> q / 2 ^ k" using q by simp
  then have m: "0 \<le> m" unfolding m_def by (rule roundHalfEven_nonneg)
  have n: "(of_int m :: rat) * 2 ^ k = of_nat (nat m * 2 ^ k)" using m by simp
  have "roundPos q = (if B \<le> of_int m * 2 ^ k then PInf else Fin (of_int m * 2 ^ k))"
    unfolding roundPos_def Let_def ulp m_def[symmetric] B_def ..
  then have eq: "roundPos q = (if B \<le> of_nat (nat m * 2 ^ k) then PInf else Fin (of_nat (nat m * 2 ^ k)))"
    unfolding n .
  show ?thesis
  proof (cases "B \<le> of_nat (nat m * 2 ^ k)")
    case True
    with eq have "roundPos q = PInf" by (simp only: if_True)
    then show ?thesis ..
  next
    case False
    with eq have "roundPos q = Fin (of_nat (nat m * 2 ^ k))" by (simp only: if_False)
    then show ?thesis by blast
  qed
qed

lemma roundPos_nonneg:
  "roundPos q = PInf \<or> (\<exists>r. 0 \<le> r \<and> roundPos q = Fin r)" if "0 < q"
proof -
  define ulp :: rat where "ulp = 2 powi (max (ilog2 q) (- 1022) - 52)"
  define B :: rat where "B = 2 ^ 1024"
  have u: "0 < ulp" by (simp add: ulp_def)
  then have "0 \<le> q / ulp" using that by simp
  then have "0 \<le> roundHalfEven (q / ulp)" by (rule roundHalfEven_nonneg)
  then have r: "(0::rat) \<le> of_int (roundHalfEven (q / ulp)) * ulp" using u by simp
  have eq: "roundPos q = (if B \<le> of_int (roundHalfEven (q / ulp)) * ulp then PInf
                          else Fin (of_int (roundHalfEven (q / ulp)) * ulp))"
    unfolding roundPos_def Let_def ulp_def B_def ..
  show ?thesis
  proof (cases "B \<le> of_int (roundHalfEven (q / ulp)) * ulp")
    case True
    with eq have "roundPos q = PInf" by (simp only: if_True)
    then show ?thesis ..
  next
    case False
    with eq have "roundPos q = Fin (of_int (roundHalfEven (q / ulp)) * ulp)" by (simp only: if_False)
    with r show ?thesis by blast
  qed
qed

lemma toDouble_nonneg:
  "0 \<le> q \<Longrightarrow> toDouble q = PInf \<or> (\<exists>r. 0 \<le> r \<and> toDouble q = Fin r)"
  using roundPos_nonneg[of q] by (auto simp: toDouble_def)

lemma toDouble_nat_integral:
  "toDouble (of_nat n) = PInf \<or> (\<exists>m::nat. toDouble (of_nat n) = Fin (of_nat m))"
proof (cases "n < 2 ^ 53")
  case True
  then show ?thesis using toDouble_of_nat by blast
next
  case False
  then have "2 ^ 53 \<le> n" by simp
  then have "(2::rat) ^ 53 \<le> of_nat n" by (metis of_nat_le_iff of_nat_numeral of_nat_power)
  then have "roundPos (of_nat n) = PInf \<or> (\<exists>m::nat. roundPos (of_nat n) = Fin (of_nat m))"
    by (rule roundPos_big_integral)
  moreover have "0 < n" using False by (cases n) auto
  ultimately show ?thesis by (simp add: toDouble_def)
qed

section \<open>Values of the parsers\<close>


lemma parseUnsignedDecimal_cases:
  "parseUnsignedDecimal s = NaN \<or> parseUnsignedDecimal s = PInf \<or>
   (\<exists>r. 0 \<le> r \<and> parseUnsignedDecimal s = Fin r)"
proof -
  have "toDouble q = PInf \<or> (\<exists>r. 0 \<le> r \<and> toDouble q = Fin r)"
    if "q = of_nat n / 10 ^ k * 10 powi e" for q :: rat and n k :: nat and e :: int
  proof -
    have "(0::rat) \<le> 10 powi e" by simp
    then have "0 \<le> q" unfolding that by simp
    then show ?thesis by (rule toDouble_nonneg)
  qed
  then show ?thesis unfolding parseUnsignedDecimal_def Let_def by (auto simp only: split: if_splits)
qed

lemma isDigit_not_space: "isDigit c \<Longrightarrow> \<not> isWhiteSpace c"
  by (auto simp: isDigit_def isWhiteSpace_def word_le_nat_alt)

lemma isDigit_not_sign: "isDigit c \<Longrightarrow> c \<noteq> 0x2D \<and> c \<noteq> 0x2B"
  by (auto simp: isDigit_def)

lemma parseUnsignedDecimal_digit:
  assumes "s \<noteq> []" "isDigit (hd s)"
  shows "parseUnsignedDecimal s \<noteq> NaN"
proof -
  have "takeWhile isDigit s \<noteq> []" using assms by (cases s) auto
  moreover have "toDouble q \<noteq> NaN" for q
    by (auto simp: toDouble_def roundPos_def Let_def split: if_splits)
  ultimately show ?thesis unfolding parseUnsignedDecimal_def Let_def by (simp split: if_splits)
qed


lemma trimStart_digit: "s \<noteq> [] \<Longrightarrow> isDigit (hd s) \<Longrightarrow> trimStart s = s"
  by (cases s) (auto simp: trimStart_def dest: isDigit_not_space)

lemma parseFloat_digit:
  assumes "s \<noteq> []" "isDigit (hd s)"
  shows "parseFloat s = PInf \<or> (\<exists>r. 0 \<le> r \<and> parseFloat s = Fin r)"
proof -
  have "parseFloat s = parseUnsignedDecimal s"
    using assms isDigit_not_sign[of "hd s"] by (simp add: parseFloat_def trimStart_digit)
  then show ?thesis
    using parseUnsignedDecimal_cases[of s] parseUnsignedDecimal_digit[OF assms] by auto
qed

lemma parseInt10_digit:
  assumes "s \<noteq> []" "isDigit (hd s)"
  shows "parseInt10 s = PInf \<or> (\<exists>n::nat. parseInt10 s = Fin (of_nat n))"
proof -
  have z: "takeWhile isDigit s \<noteq> []" using assms by (cases s) auto
  have "parseInt10 s = toDouble (of_nat (digitsVal (takeWhile isDigit s)))"
    using assms z isDigit_not_sign[of "hd s"] by (simp add: parseInt10_def trimStart_digit)
  then show ?thesis using toDouble_nat_integral by simp
qed

lemma parseInt10_integral: "parseInt10 s = Fin q \<Longrightarrow> q \<in> \<int>"
proof -
  assume a: "parseInt10 s = Fin q"
  have v: "toDouble (of_nat n) = Fin r \<Longrightarrow> r \<in> \<int>" for n r
    using toDouble_nat_integral[of n] by auto
  have "js_neg (toDouble (of_nat n)) = Fin r \<Longrightarrow> r \<in> \<int>" for n r
    using toDouble_nat_integral[of n] by auto
  with v a show ?thesis
    unfolding parseInt10_def Let_def by (auto simp only: split: if_splits)
qed

lemma Math_round_integral: "Math_round x = Fin q \<Longrightarrow> q \<in> \<int>"
  by (cases x) auto

lemma Math_round_nonneg:
  "0 \<le> r \<Longrightarrow> \<exists>n::nat. Math_round (Fin r) = Fin (of_nat n)"
proof -
  assume "0 \<le> r"
  then have "0 \<le> \<lfloor>r + 1 / 2\<rfloor>" by simp
  then have "(of_int \<lfloor>r + 1 / 2\<rfloor> :: rat) = of_nat (nat \<lfloor>r + 1 / 2\<rfloor>)" by simp
  then show ?thesis by (metis Math_round.simps(1))
qed


lemma js_mul_pos:
  assumes "0 < c" "x = PInf \<or> (\<exists>r. 0 \<le> r \<and> x = Fin r)"
  shows "js_mul x (Fin c) = PInf \<or> (\<exists>r. 0 \<le> r \<and> js_mul x (Fin c) = Fin r)"
proof -
  have "toDouble (r * c) = PInf \<or> (\<exists>r'. 0 \<le> r' \<and> toDouble (r * c) = Fin r')" if "0 \<le> r" for r
    using that assms(1) by (intro toDouble_nonneg) simp
  then have "js_mul (Fin r) (Fin c) = PInf \<or> (\<exists>r'. 0 \<le> r' \<and> js_mul (Fin r) (Fin c) = Fin r')"
    if "0 \<le> r" for r using that by simp
  moreover have "js_mul PInf (Fin c) = PInf" using assms(1) by simp
  ultimately show ?thesis using assms(2) by blast
qed

lemma scaled_round_nonneg:
  assumes "0 < c" "s \<noteq> []" "isDigit (hd s)"
  shows "Math_round (js_mul (parseFloat s) (Fin c)) = PInf \<or>
         (\<exists>n::nat. Math_round (js_mul (parseFloat s) (Fin c)) = Fin (of_nat n))"
proof -
  from js_mul_pos[OF assms(1) parseFloat_digit[OF assms(2,3)]]
  consider "js_mul (parseFloat s) (Fin c) = PInf"
    | r where "0 \<le> r" "js_mul (parseFloat s) (Fin c) = Fin r" by blast
  then show ?thesis
  proof cases
    case 1
    then show ?thesis by simp
  next
    case 2
    then show ?thesis using Math_round_nonneg[of r] by simp
  qed
qed


lemma parseStarCount_integral: "parseStarCount s = Fin q \<Longrightarrow> q \<in> \<int>"
  unfolding parseStarCount_def Let_def
  by (auto simp only: isNaN.simps jsnum.inject Ints_0 dest: Math_round_integral parseInt10_integral
        split: if_splits)

lemma parseStarCount_digit:
  assumes "stripSeparators s \<noteq> []" "isDigit (hd (stripSeparators s))"
  shows "parseStarCount s = PInf \<or> (\<exists>n::nat. parseStarCount s = Fin (of_nat n))"
proof -
  let ?c = "stripSeparators s"
  have k: "Math_round (js_mul (parseFloat ?c) (Fin 1000)) = PInf \<or>
         (\<exists>n::nat. Math_round (js_mul (parseFloat ?c) (Fin 1000)) = Fin (of_nat n))"
    by (rule scaled_round_nonneg[OF _ assms]) simp
  have m: "Math_round (js_mul (parseFloat ?c) (Fin 1000000)) = PInf \<or>
         (\<exists>n::nat. Math_round (js_mul (parseFloat ?c) (Fin 1000000)) = Fin (of_nat n))"
    by (rule scaled_round_nonneg[OF _ assms]) simp
  have p: "parseInt10 ?c = PInf \<or> (\<exists>n::nat. parseInt10 ?c = Fin (of_nat n))"
    by (rule parseInt10_digit[OF assms])
  then have p': "(if isNaN (parseInt10 ?c) then Fin 0 else parseInt10 ?c) = parseInt10 ?c"
    by auto
  show ?thesis
    unfolding parseStarCount_def Let_def p' using k m p by (simp only: split: if_splits) blast
qed

lemma toDouble_not_NaN: "toDouble q \<noteq> NaN"
  by (auto simp: toDouble_def roundPos_def Let_def split: if_splits)

lemma scaled_NaN_iff:
  "0 < c \<Longrightarrow> Math_round (js_mul x (Fin c)) = NaN \<longleftrightarrow> x = NaN"
  using toDouble_not_NaN by (cases x; cases "js_mul x (Fin c)") auto

lemma parseStarCount_NaN_iff:
  "parseStarCount s = NaN \<longleftrightarrow>
     (lowerIncludes_k (stripSeparators s) \<or> lowerIncludes_m (stripSeparators s)) \<and>
     parseFloat (stripSeparators s) = NaN"
proof -
  have "(if isNaN p then Fin 0 else p) \<noteq> NaN" for p by (cases p) auto
  then show ?thesis
    by (auto simp: parseStarCount_def Let_def scaled_NaN_iff)
qed







section \<open>parseStarCount on the examples of the specification\<close>

lemmas parse_defs = parseStarCount_def parseInt10_def parseFloat_def parseUnsignedDecimal_def
  parseExponent_def trimStart_def startsWith_def lowerIncludes_k_def lowerIncludes_m_def
  stripSeparators_def isWhiteSpace_def isDigit_def digitVal_def digitsVal_def js_def Let_def






lemma parseStarCount_examples:
  "parseStarCount (js ''1,234'') = Fin 1234"
  "parseStarCount (js ''3m'') = Fin 3000000"
  "parseStarCount (js '''') = Fin 0"
  "parseStarCount (js ''abc'') = Fin 0"
  by (simp_all add: parse_defs toDouble_numeral floor_rat_numeral)


section \<open>The scraper loop\<close>


lemma eSuc_le_D: "enat (Suc n) \<le> eSuc m \<Longrightarrow> enat n \<le> m"
  by (simp flip: eSuc_enat)

lemma scrapeLoop_follow:
  assumes "follow web n u ps = Some (us, u')" "enat (n + length ps) \<le> eSuc mp"
  shows "scrapeLoop web mp n (Some u) f acc =
         scrapeLoop web mp (n + length ps) (Some u') (f @ us) (acc @ recordsOf ps)"
  using assms
proof (induction ps arbitrary: n u us f acc)
  case Nil
  then show ?case by (simp add: recordsOf_def)
next
  case (Cons p ps)
  from Cons.prems(1) obtain r h us' where
    r: "web n u = Some r" "u \<noteq> []" "ok r" "body r = Some p" "boxes p \<noteq> []"
    and h: "next_href p = Some h" "h \<noteq> []" "\<not> next_disabled p"
    and f: "follow web (Suc n) (nextUrl h) ps = Some (us', u')" and us: "us = u # us'"
    by (auto split: option.splits if_splits)
  have "enat (Suc (n + length ps)) \<le> eSuc mp" using Cons.prems(2) by simp
  then have cap: "enat n \<le> mp"
    by (metis eSuc_le_D enat_ord_simps(1) le_add1 order_trans)
  have "scrapeLoop web mp n (Some u) f acc =
        scrapeLoop web mp (Suc n) (Some (nextUrl h)) (f @ [u]) (acc @ pageRecords p)"
    by (subst scrapeLoop.simps) (simp add: r h cap)
  also have "\<dots> = scrapeLoop web mp (Suc n + length ps) (Some u') ((f @ [u]) @ us')
                     ((acc @ pageRecords p) @ recordsOf ps)"
    using Cons.prems(2) by (intro Cons.IH[OF f]) simp
  finally show ?case by (simp add: us recordsOf_def)
qed

lemma scrapeLoop_stop:
  assumes "\<not> enat n \<le> mp \<or> u = [] \<or> web n u = None \<or>
           (\<exists>r. web n u = Some r \<and> (\<not> ok r \<or> body r = None \<or> (\<exists>p. body r = Some p \<and> boxes p = [])))"
  shows "scrapeLoop web mp n (Some u) f acc =
         Some (f @ (if enat n \<le> mp \<and> u \<noteq> [] then [u] else []), acc)"
proof (cases "enat n \<le> mp \<and> u \<noteq> []")
  case False
  show ?thesis by (subst scrapeLoop.simps) (simp add: False)
next
  case True
  with assms consider "web n u = None"
    | r where "web n u = Some r" "\<not> ok r"
    | r where "web n u = Some r" "ok r" "body r = None"
    | r p where "web n u = Some r" "ok r" "body r = Some p" "boxes p = []"
    by (cases "web n u") auto
  then show ?thesis
  proof cases
    case 1 then show ?thesis by (subst scrapeLoop.simps) (simp add: True)
  next
    case 2 then show ?thesis by (subst scrapeLoop.simps) (simp add: True)
  next
    case 3 then show ?thesis by (subst scrapeLoop.simps) (simp add: True)
  next
    case 4 then show ?thesis by (subst scrapeLoop.simps) (simp add: True)
  qed
qed

lemma scrapeLoop_last:
  assumes "enat n \<le> mp" "u \<noteq> []" "web n u = Some r" "ok r" "body r = Some p" "terminalPage p"
  shows "scrapeLoop web mp n (Some u) f acc = Some (f @ [u], acc @ pageRecords p)"
  using assms
  by (subst scrapeLoop.simps) (auto simp: terminalPage_def pageRecords_def List.map_filter_simps split: option.splits)


lemma mset_insertSorted: "mset (insertSorted cmp x ys) = add_mset x (mset ys)"
  by (induction ys) simp_all

lemma mset_stableSort: "mset (stableSort cmp xs) = mset xs"
  by (induction xs) (simp_all add: stableSort_def mset_insertSorted)

lemma mset_array_sort: "mset (array_sort engine cmp xs) = mset xs"
  by (simp add: array_sort_def mset_stableSort)

lemma set_array_sort: "set (array_sort engine cmp xs) = set xs"
  using mset_array_sort[of engine cmp xs] by (metis set_mset_mset)

lemma length_array_sort: "length (array_sort engine cmp xs) = length xs"
  using mset_array_sort[of engine cmp xs] by (metis size_mset)

lemma distinct_map_array_sort:
  "distinct (map g (array_sort engine cmp xs)) \<longleftrightarrow> distinct (map g xs)"
proof -
  have "mset (map g (array_sort engine cmp xs)) = mset (map g xs)"
    by (simp add: mset_array_sort)
  then show ?thesis by (rule mset_eq_imp_distinct_iff)
qed

lemma array_sort_consistent:
  "consistentComparator cmp xs \<Longrightarrow> array_sort engine cmp xs = stableSort cmp xs"
  by (simp add: array_sort_def)

lemma stableSort_ties:
  "\<forall>a\<in>set xs. \<forall>b\<in>set xs. cmpEqual cmp a b \<Longrightarrow> stableSort cmp xs = xs"
proof (induction xs)
  case Nil
  then show ?case by (simp add: stableSort_def)
next
  case (Cons x xs)
  then have IH: "stableSort cmp xs = xs" by simp
  have "insertSorted cmp x xs = x # xs"
  proof (cases xs)
    case Nil
    then show ?thesis by simp
  next
    case (Cons y ys)
    then have "cmpEqual cmp x y" using Cons.prems by simp
    then show ?thesis using Cons by (simp add: cmpEqual_def)
  qed
  then show ?case using IH by (simp add: stableSort_def)
qed

lemma array_sort_ties:
  assumes "\<forall>a\<in>set xs. \<forall>b\<in>set xs. cmpEqual cmp a b"
  shows "array_sort engine cmp xs = xs"
proof -
  have "\<not> cmpLess cmp a b" "\<not> cmpGreater cmp a b" if "a \<in> set xs" "b \<in> set xs" for a b
    using assms that by (auto simp: cmpEqual_def cmpLess_def cmpGreater_def)
  then have "consistentComparator cmp xs"
    unfolding consistentComparator_def using assms by blast
  then show ?thesis by (simp add: array_sort_consistent stableSort_ties[OF assms])
qed

lemma array_sort_Nil [simp]: "array_sort engine cmp [] = []"
  by (rule array_sort_ties) simp

lemma array_sort_single: "array_sort engine cmp [x] = [x]"
  using mset_array_sort[of engine cmp "[x]"] by (metis mset_single_iff_right mset.simps(1,2) mset_eq_length length_0_conv length_Suc_conv add_mset_eq_single)

lemma scrapeLoop_result:
  assumes "scrapeLoop web mp n nu f acc = Some res"
  shows "\<exists>us. res = (f @ us, acc @ recordsOf (documentsFrom web n us))"
  using assms
proof (induction web mp n nu f acc res rule: scrapeLoop.raw_induct[rotated 1, consumes 1])
  case (1 loop web mp n nu f acc res)
  note IH = "1"(1) and bd = "1"(2)
  have zero: "\<exists>us. (f, acc) = (f @ us, acc @ recordsOf (documentsFrom web n us))"
    by (intro exI[of _ "[]"]) (simp add: recordsOf_def)
  show ?case
  proof (cases "\<exists>u r p. nu = Some u \<and> enat n \<le> mp \<and> u \<noteq> [] \<and> web n u = Some r \<and> ok r \<and>
                  body r = Some p \<and> boxes p \<noteq> []")
    case True
    then obtain u r p where c: "nu = Some u" "enat n \<le> mp" "u \<noteq> []" "web n u = Some r" "ok r"
        "body r = Some p" "boxes p \<noteq> []"
      by blast
    then have d: "documentsFrom web n (u # us) = p # documentsFrom web (Suc n) us" for us
      by simp
    show ?thesis
    proof (cases "\<exists>h. next_href p = Some h \<and> h \<noteq> [] \<and> \<not> next_disabled p")
      case True
      then obtain h where h: "next_href p = Some h" "h \<noteq> []" "\<not> next_disabled p" by blast
      with bd c have "loop web mp (n + 1) (Some (nextUrl h)) (f @ [u]) (acc @ pageRecords p) = Some res"
        by simp
      from IH[OF this] obtain us where
        "res = ((f @ [u]) @ us, (acc @ pageRecords p) @ recordsOf (documentsFrom web (n + 1) us))"
        by blast
      then have "res = (f @ (u # us), acc @ recordsOf (documentsFrom web n (u # us)))"
        unfolding d by (simp add: recordsOf_def)
      then show ?thesis by blast
    next
      case False
      with bd c have "res = (f @ [u], acc @ recordsOf [p])"
        by (auto simp: recordsOf_def split: option.splits if_splits)
      then have "res = (f @ [u], acc @ recordsOf (documentsFrom web n [u]))"
        unfolding d by simp
      then show ?thesis by blast
    qed
  next
    case False
    with bd consider "res = (f, acc)"
      | u where "res = (f @ [u], acc)" "nu = Some u" "web n u = None"
      | u r where "res = (f @ [u], acc)" "nu = Some u" "web n u = Some r" "\<not> ok r"
      | u r where "res = (f @ [u], acc)" "nu = Some u" "web n u = Some r" "ok r" "body r = None"
      | u r p where "res = (f @ [u], acc)" "nu = Some u" "web n u = Some r" "ok r"
          "body r = Some p" "boxes p = []"
      by (cases "\<exists>u r. nu = Some u \<and> web n u = Some r \<and> ok r")
        (auto split: option.splits if_splits)
    then show ?thesis
    proof cases
      case 1
      then show ?thesis using zero by simp
    next
      case 2
      then have "res = (f @ [u], acc @ recordsOf (documentsFrom web n [u]))"
        by (simp add: recordsOf_def)
      then show ?thesis by blast
    next
      case 3
      then have "res = (f @ [u], acc @ recordsOf (documentsFrom web n [u]))"
        by (simp add: recordsOf_def)
      then show ?thesis by blast
    next
      case 4
      then have "res = (f @ [u], acc @ recordsOf (documentsFrom web n [u]))"
        by (simp add: recordsOf_def)
      then show ?thesis by blast
    next
      case 5
      then have "res = (f @ [u], acc @ recordsOf (documentsFrom web n [u]))"
        by (simp add: recordsOf_def pageRecords_def List.map_filter_simps)
      then show ?thesis by blast
    qed
  qed
qed

lemma splitAcc_unfold:
  "splitAcc sep cur s =
     (cur @ takeWhile (\<lambda>c. c \<noteq> sep) s) #
     (case dropWhile (\<lambda>c. c \<noteq> sep) s of [] \<Rightarrow> [] | _ # rest \<Rightarrow> splitAcc sep [] rest)"
  by (induction s arbitrary: cur) simp_all

lemma split_name:
  "(case split slash s of owner # name' # _ \<Rightarrow> orElse name' s | _ \<Rightarrow> s) =
   orElse (secondSegment s) s"
proof (cases "dropWhile (\<lambda>c. c \<noteq> slash) s")
  case Nil
  have "split slash s = [takeWhile (\<lambda>c. c \<noteq> slash) s]"
    unfolding split_def by (subst splitAcc_unfold) (simp only: Nil list.case append_Nil)
  moreover have "secondSegment s = []" unfolding secondSegment_def Nil by simp
  ultimately show ?thesis by (simp add: orElse_def)
next
  case (Cons c rest)
  have "splitAcc slash [] rest = takeWhile (\<lambda>c. c \<noteq> slash) rest #
          (case dropWhile (\<lambda>c. c \<noteq> slash) rest of [] \<Rightarrow> [] | _ # rest' \<Rightarrow> splitAcc slash [] rest')"
    by (subst splitAcc_unfold) simp
  then obtain tl' where "splitAcc slash [] rest = takeWhile (\<lambda>c. c \<noteq> slash) rest # tl'" by blast
  moreover have "split slash s = takeWhile (\<lambda>c. c \<noteq> slash) s # splitAcc slash [] rest"
    unfolding split_def using Cons by (subst splitAcc_unfold) simp
  ultimately show ?thesis using Cons by (simp add: secondSegment_def)
qed

lemma parseBox_Some:
  assumes "parseBox box = Some r"
  shows "full_name r \<noteq> []"
    and "url r = js ''https://github.com/'' @ full_name r"
    and "name r = orElse (secondSegment (full_name r)) (full_name r)"
    and "stars r = parseStarCount (trim (stars_text box))"
    and "\<exists>href. repo_href box = Some href \<and> full_name r = trim (replaceFirst slash href)"
  using assms unfolding parseBox_def Let_def
  by (auto simp: split_name orElse_def split: if_splits option.splits)

lemma parseBox_None:
  "parseBox box = None \<longleftrightarrow>
     (case repo_href box of None \<Rightarrow> True | Some href \<Rightarrow> trim (replaceFirst slash href) = [])"
  unfolding parseBox_def Let_def by (auto simp: orElse_def split: option.splits)

lemma recordsOf_parseBox:
  "r \<in> set (recordsOf ps) \<Longrightarrow> \<exists>p box. p \<in> set ps \<and> box \<in> set (boxes p) \<and> parseBox box = Some r"
  by (auto simp: recordsOf_def pageRecords_def List.map_filter_def) blast

lemma scrape_output:
  assumes "scrapeGitHubDependents engine web owner repo mp = Some (fetched, rs)"
  shows "rs = array_sort engine byStarsDesc (recordsOf (documentsOf web fetched))"
proof -
  from assms obtain acc where
    l: "scrapeLoop web mp 1 (Some (baseUrl owner repo)) [] [] = Some (fetched, acc)"
    and rs: "rs = array_sort engine byStarsDesc acc"
    by (auto simp: scrapeGitHubDependents_def split: option.splits)
  from scrapeLoop_result[OF l] rs show ?thesis by (auto simp: documentsOf_def)
qed

lemma scrape_output_row:
  assumes "scrapeGitHubDependents engine web owner repo mp = Some (fetched, rs)" "r \<in> set rs"
  shows "\<exists>p\<in>set (documentsOf web fetched). \<exists>box\<in>set (boxes p). parseBox box = Some r"
proof -
  from assms have "r \<in> set (recordsOf (documentsOf web fetched))"
    unfolding scrape_output[OF assms(1)] by (simp add: set_array_sort)
  then show ?thesis using recordsOf_parseBox by blast
qed

lemma scrape_output_record:
  assumes "scrapeGitHubDependents engine web owner repo mp = Some (fetched, rs)" "r \<in> set rs"
  shows "\<exists>box. parseBox box = Some r"
  using scrape_output_row[OF assms] by blast


section \<open>The scraper on the example environments\<close>


lemmas box_defs = parseBox_def rowOf_def trim_def replaceFirst_def slash_def split_def
  orElse_def orNull_def repoOf_def

lemma viemUrl_nonempty: "viemUrl \<noteq> []"
  by (simp add: viemUrl_def baseUrl_def js_def)

lemma ok_okPage: "ok (okPage p)" "body (okPage p) = Some p"
  by (simp_all add: ok_def okPage_def)

lemma parseBox_k: "parseBox (rowOf (js ''/a/b'') (js ''k'')) = Some (repoOf (js ''b'') (js ''a/b'') NaN)"
  by (simp add: box_defs parse_defs)

lemma parseBox_7: "parseBox (rowOf (js ''/c/d'') (js ''7'')) = Some (repoOf (js ''d'') (js ''c/d'') (Fin 7))"
  by (simp add: box_defs parse_defs toDouble_numeral)

lemma parseBox_ab: "parseBox (rowOf (js ''/a/b'') []) = Some (repoOf (js ''b'') (js ''a/b'') (Fin 0))"
  by (simp add: box_defs parse_defs)

lemma main_single:
  assumes "web 1 viemUrl = Some (okPage p)" "terminalPage p"
  shows "main engine web = Some ([viemUrl], Written (js ''./viem_dependents_scraped.json'')
                                      (array_sort engine byStarsDesc (pageRecords p)))"
proof -
  have "scrapeLoop web \<infinity> 1 (Some viemUrl) [] [] = Some ([] @ [viemUrl], [] @ pageRecords p)"
    using assms by (intro scrapeLoop_last[where r = "okPage p"])
       (simp_all add: viemUrl_nonempty ok_okPage)
  then show ?thesis by (simp add: main_def scrapeGitHubDependents_def viemUrl_def)
qed

lemma main_webNaN:
  "main engine webNaN = Some ([viemUrl], Written (js ''./viem_dependents_scraped.json'')
      [repoOf (js ''b'') (js ''a/b'') NaN, repoOf (js ''d'') (js ''c/d'') (Fin 7)])"
proof -
  have "pageRecords pageNaN = [repoOf (js ''b'') (js ''a/b'') NaN, repoOf (js ''d'') (js ''c/d'') (Fin 7)]"
    by (simp add: pageRecords_def pageNaN_def List.map_filter_simps parseBox_k parseBox_7)
  moreover have "array_sort engine byStarsDesc [repoOf (js ''b'') (js ''a/b'') NaN, repoOf (js ''d'') (js ''c/d'') (Fin 7)]
        = [repoOf (js ''b'') (js ''a/b'') NaN, repoOf (js ''d'') (js ''c/d'') (Fin 7)]"
    by (rule array_sort_ties) (simp add: cmpEqual_def byStarsDesc_def repoOf_def toDouble_def)
  moreover have "main engine webNaN = Some ([viemUrl], Written (js ''./viem_dependents_scraped.json'')
                                      (array_sort engine byStarsDesc (pageRecords pageNaN)))"
    by (rule main_single) (simp_all add: webNaN_def terminalPage_def pageNaN_def)
  ultimately show ?thesis by simp
qed


lemma nextUrl_nonempty: "h \<noteq> [] \<Longrightarrow> nextUrl h \<noteq> []"
  by (simp add: nextUrl_def js_def)

lemma baseUrl_nonempty: "baseUrl owner repo \<noteq> []"
  by (simp add: baseUrl_def js_def)

lemma follow_props:
  "follow web n u ps = Some (us, u') \<Longrightarrow> u \<noteq> [] \<Longrightarrow> u' \<noteq> [] \<and> length us = length ps"
proof (induction ps arbitrary: n u us)
  case Nil
  then show ?case by simp
next
  case (Cons p ps)
  from Cons.prems(1) obtain h us' where h: "h \<noteq> []"
    and f: "follow web (Suc n) (nextUrl h) ps = Some (us', u')" and us: "us = u # us'"
    by (auto split: option.splits if_splits)
  from Cons.IH[OF f nextUrl_nonempty[OF h]] us show ?case by simp
qed

lemma scrape_after_prefix:
  assumes "follow web 1 (baseUrl owner repo) ps = Some (us, u)" "enat (length ps) \<le> mp"
  shows "scrapeLoop web mp 1 (Some (baseUrl owner repo)) [] [] =
         scrapeLoop web mp (Suc (length ps)) (Some u) us (recordsOf ps)"
proof -
  have "enat (1 + length ps) \<le> eSuc mp" using assms(2) by (simp flip: eSuc_enat)
  from scrapeLoop_follow[OF assms(1) this, of "[]" "[]"] show ?thesis by simp
qed

lemma scrape_stops:
  assumes "follow web 1 (baseUrl owner repo) ps = Some (us, u)"
    and "enat (length ps) \<le> mp"
    and "(\<exists>r. web (Suc (length ps)) u = Some r \<and>
              (\<not> ok r \<or> body r = None \<or> (\<exists>p. body r = Some p \<and> boxes p = []))) \<or>
         web (Suc (length ps)) u = None \<or> \<not> enat (Suc (length ps)) \<le> mp"
  shows "scrapeGitHubDependents engine web owner repo mp =
           Some (us @ (if enat (Suc (length ps)) \<le> mp then [u] else []),
                 array_sort engine byStarsDesc (recordsOf ps))"
proof -
  have u: "u \<noteq> []" using follow_props[OF assms(1) baseUrl_nonempty] by simp
  have "scrapeLoop web mp (Suc (length ps)) (Some u) us (recordsOf ps) =
        Some (us @ (if enat (Suc (length ps)) \<le> mp \<and> u \<noteq> [] then [u] else []), recordsOf ps)"
    by (rule scrapeLoop_stop) (use assms(3) in blast)
  then show ?thesis
    unfolding scrapeGitHubDependents_def scrape_after_prefix[OF assms(1,2)] using u by simp
qed

lemma scrape_terminal:
  assumes "follow web 1 (baseUrl owner repo) ps = Some (us, u)"
    and "enat (Suc (length ps)) \<le> mp"
    and "web (Suc (length ps)) u = Some r" "ok r" "body r = Some p" "terminalPage p"
  shows "scrapeGitHubDependents engine web owner repo mp =
           Some (us @ [u], array_sort engine byStarsDesc (recordsOf (ps @ [p])))"
proof -
  have u: "u \<noteq> []" using follow_props[OF assms(1) baseUrl_nonempty] by simp
  have "enat (length ps) \<le> enat (Suc (length ps))" by simp
  then have cap: "enat (length ps) \<le> mp" using assms(2) by (rule order_trans)
  have "scrapeLoop web mp (Suc (length ps)) (Some u) us (recordsOf ps) =
        Some (us @ [u], recordsOf ps @ pageRecords p)"
    using assms(2-6) u by (intro scrapeLoop_last[where r = r and p = p]) simp_all
  then show ?thesis
    unfolding scrapeGitHubDependents_def scrape_after_prefix[OF assms(1) cap]
    by (simp add: recordsOf_def)
qed

lemma main_of_scrape:
  "scrapeGitHubDependents engine web (js ''wevm'') (js ''viem'') \<infinity> = Some (fetched, rs) \<Longrightarrow>
   main engine web = Some (fetched, Written (js ''./viem_dependents_scraped.json'') rs)"
  by (simp add: main_def)

lemma js_eq_Nil [simp]: "js s = [] \<longleftrightarrow> s = []"
  by (simp add: js_def)

lemma pageRecords_pageNext: "pageRecords pageNext = [repoOf (js ''b'') (js ''a/b'') (Fin 0)]"
  by (simp add: pageRecords_def pageNext_def List.map_filter_simps parseBox_ab)

lemma pageRecords_pageEmpty: "pageRecords pageEmpty = []"
  by (simp add: pageRecords_def pageEmpty_def List.map_filter_simps)

lemma nextUrl_p2: "nextUrl (js ''/p2'') = js ''https://github.com/p2''"
  by (simp add: nextUrl_def startsWith_def js_def)

lemma viemUrl_neq_p2: "viemUrl \<noteq> js ''https://github.com/p2''"
  by (simp add: viemUrl_def baseUrl_def js_def)

lemma follow_webFail:
  "follow webFail 1 (baseUrl (js ''wevm'') (js ''viem'')) [pageNext] =
     Some ([viemUrl], js ''https://github.com/p2'')"
  by (simp add: webFail_def viemUrl_def[symmetric] viemUrl_nonempty ok_okPage nextUrl_p2 pageNext_def)

lemma follow_webEmptySecond:
  "follow webEmptySecond 1 (baseUrl (js ''wevm'') (js ''viem'')) [pageNext] =
     Some ([viemUrl], js ''https://github.com/p2'')"
  by (simp add: webEmptySecond_def viemUrl_def[symmetric] viemUrl_nonempty ok_okPage nextUrl_p2 pageNext_def)

lemma not_ok_failed: "\<not> ok (failed 500)"
  by (simp add: ok_def failed_def)

lemma terminal_pageEmpty: "terminalPage pageEmpty"
  by (simp add: terminalPage_def pageEmpty_def)

lemma terminal_pageDup: "terminalPage pageDup"
  by (simp add: terminalPage_def pageDup_def)

lemma pageRecords_pageDup:
  "pageRecords pageDup = [repoOf (js ''b'') (js ''a/b'') (Fin 0), repoOf (js ''b'') (js ''a/b'') (Fin 0)]"
  by (simp add: pageRecords_def pageDup_def List.map_filter_simps parseBox_ab)

lemma sort_two_equal:
  "array_sort engine byStarsDesc [repoOf n f (Fin 0), repoOf n' f' (Fin 0)] = [repoOf n f (Fin 0), repoOf n' f' (Fin 0)]"
  by (rule array_sort_ties) (simp add: cmpEqual_def byStarsDesc_def repoOf_def toDouble_def)

lemma main_webDup:
  "main engine webDup = Some ([viemUrl], Written (js ''./viem_dependents_scraped.json'')
     [repoOf (js ''b'') (js ''a/b'') (Fin 0), repoOf (js ''b'') (js ''a/b'') (Fin 0)])"
proof -
  have "main engine webDup = Some ([viemUrl], Written (js ''./viem_dependents_scraped.json'')
                                      (array_sort engine byStarsDesc (pageRecords pageDup)))"
    by (rule main_single) (simp_all add: webDup_def terminal_pageDup)
  then show ?thesis by (simp add: pageRecords_pageDup sort_two_equal)
qed

lemma parseBox_slash:
  "parseBox (rowOf (js ''/a/'') []) = Some (repoOf (js ''a/'') (js ''a/'') (Fin 0))"
  by (simp add: box_defs parse_defs)

lemma main_webSlash:
  "main engine webSlash = Some ([viemUrl], Written (js ''./viem_dependents_scraped.json'')
     [repoOf (js ''a/'') (js ''a/'') (Fin 0)])"
proof -
  have "main engine webSlash = Some ([viemUrl], Written (js ''./viem_dependents_scraped.json'')
                                      (array_sort engine byStarsDesc (pageRecords pageSlash)))"
    by (rule main_single) (simp_all add: webSlash_def terminalPage_def pageSlash_def)
  moreover have "pageRecords pageSlash = [repoOf (js ''a/'') (js ''a/'') (Fin 0)]"
    by (simp add: pageRecords_def pageSlash_def List.map_filter_simps parseBox_slash)
  ultimately show ?thesis by (simp add: array_sort_single)
qed

lemma scrape_webNaN:
  "scrapeGitHubDependents engine webNaN (js ''wevm'') (js ''viem'') \<infinity> =
     Some ([viemUrl], [repoOf (js ''b'') (js ''a/b'') NaN, repoOf (js ''d'') (js ''c/d'') (Fin 7)])"
  using main_webNaN[of engine] by (auto simp: main_def split: option.splits)




section \<open>The collector loops\<close>

lemma set_add_distinct: "distinct names \<Longrightarrow> distinct (set_add names n)"
  by (simp add: set_add_def)

lemma foldl_set_add_distinct: "distinct names \<Longrightarrow> distinct (foldl set_add names xs)"
  by (induction xs arbitrary: names) (simp_all add: set_add_distinct)

lemma foldl_set_add_set: "set (foldl set_add names xs) = set names \<union> set xs"
  by (induction xs arbitrary: names) (auto simp: set_add_def)

lemma foldl_set_add_append:
  "distinct (names @ xs) \<Longrightarrow> foldl set_add names xs = names @ xs"
  by (induction xs arbitrary: names) (auto simp: set_add_def)

lemma fetchDetails_eq:
  "fetchDetails w names trace repositories =
     (trace @ map GetRepo names, repositories @ List.map_filter (detailRecord w) names)"
proof (induction names arbitrary: trace repositories)
  case Nil
  then show ?case by (simp add: List.map_filter_simps)
next
  case (Cons n names)
  show ?case
  proof (cases "detailRecord w n")
    case None
    then have "fetchDetails w (n # names) trace repositories =
               fetchDetails w names (trace @ [GetRepo n]) repositories"
      by (auto simp: detailRecord_def split: option.splits if_splits)
    then show ?thesis using None by (simp add: Cons.IH List.map_filter_simps)
  next
    case (Some r)
    then have "fetchDetails w (n # names) trace repositories =
               fetchDetails w names (trace @ [GetRepo n]) (repositories @ [r])"
      by (auto simp: detailRecord_def split: option.splits if_splits)
    then show ?thesis using Some by (simp add: Cons.IH List.map_filter_simps)
  qed
qed

lemma searchRequests_append [simp]:
  "searchRequests (xs @ ys) = searchRequests xs @ searchRequests ys"
  by (induction xs rule: searchRequests.induct) simp_all

lemma detailNames_append [simp]:
  "detailNames (xs @ ys) = detailNames xs @ detailNames ys"
  by (induction xs rule: detailNames.induct) simp_all

lemma searchRequests_map_GetRepo [simp]: "searchRequests (map GetRepo ns) = []"
  by (induction ns) simp_all

lemma detailNames_map_GetRepo [simp]: "detailNames (map GetRepo ns) = ns"
  by (induction ns) simp_all

lemma searchRequests_map_SearchCode [simp]:
  "searchRequests (map (SearchCode pp) ps) = map (Pair pp) ps"
  by (induction ps) simp_all

lemma detailNames_map_SearchCode [simp]: "detailNames (map (SearchCode pp) ps) = []"
  by (induction ps) simp_all

lemma searchLoop_shape:
  "\<exists>k. k \<le> Suc maxPages - page \<and>
       fst (searchLoop w page names trace) = trace @ map (SearchCode perPage) [page..<page + k]"
proof (induction w page names trace rule: searchLoop.induct)
  case (1 w page names trace)
  show ?case
  proof (cases "page \<le> maxPages")
    case False
    then have "fst (searchLoop w page names trace) = trace"
      by (subst searchLoop.simps) simp
    then show ?thesis by (intro exI[of _ 0]) simp
  next
    case True
    let ?t = "trace @ [SearchCode perPage page]"
    show ?thesis
    proof (cases "\<exists>r d. search_code w perPage page = Some r \<and> ok r \<and> body r = Some d \<and>
                          \<not> length (items d) < perPage")
      case False
      with True have "fst (searchLoop w page names trace) = ?t"
        by (subst searchLoop.simps) (auto split: option.splits)
      then show ?thesis using True by (intro exI[of _ 1]) simp
    next
      case c: True
      then obtain r d where rd: "search_code w perPage page = Some r" "ok r" "body r = Some d"
          "\<not> length (items d) < perPage" by blast
      let ?n = "foldl set_add names (map repository_full_name (items d))"
      have eq: "searchLoop w page names trace = searchLoop w (page + 1) ?n ?t"
        using True rd by (subst searchLoop.simps) simp
      from "1.IH"[OF True rd(1) _ rd(3,4)] rd(2)
      obtain k where k: "k \<le> Suc maxPages - (page + 1)"
        "fst (searchLoop w (page + 1) ?n ?t) = ?t @ map (SearchCode perPage) [page + 1..<page + 1 + k]"
        by auto
      have "[page..<page + Suc k] = page # [page + 1..<page + 1 + k]"
        by (simp add: upt_conv_Cons)
      with k eq True show ?thesis by (intro exI[of _ "Suc k"]) simp
    qed
  qed
qed

lemma searchLoop_distinct:
  "distinct names \<Longrightarrow> searchLoop w page names trace = (tr, Inr ns) \<Longrightarrow> distinct ns"
proof (induction w page names trace rule: searchLoop.induct)
  case (1 w page names trace)
  show ?case
  proof (cases "\<exists>r d. page \<le> maxPages \<and> search_code w perPage page = Some r \<and> ok r \<and>
                       body r = Some d \<and> \<not> length (items d) < perPage")
    case False
    with "1.prems"(2) have "ns = names \<or>
        (\<exists>d::GitHubCodeSearchResponse. ns = foldl set_add names (map repository_full_name (items d)))"
      by (subst (asm) searchLoop.simps) (auto split: option.splits if_splits)
    with "1.prems"(1) show ?thesis by (auto simp: foldl_set_add_distinct)
  next
    case True
    then obtain r d where rd: "page \<le> maxPages" "search_code w perPage page = Some r" "ok r"
        "body r = Some d" "\<not> length (items d) < perPage" by blast
    let ?n = "foldl set_add names (map repository_full_name (items d))"
    have "searchLoop w page names trace = searchLoop w (page + 1) ?n (trace @ [SearchCode perPage page])"
      using rd by (subst searchLoop.simps) simp
    with "1.prems"(2) have "searchLoop w (page + 1) ?n (trace @ [SearchCode perPage page]) = (tr, Inr ns)"
      by simp
    moreover have "distinct ?n" using "1.prems"(1) by (rule foldl_set_add_distinct)
    ultimately show ?thesis using "1.IH"[OF rd(1,2) _ rd(4,5)] rd(3) by blast
  qed
qed

lemma searchLoop_full_prefix:
  assumes "\<forall>p. page \<le> p \<and> p < page + n \<longrightarrow> fullPage w p" "page + n \<le> Suc maxPages"
  shows "\<exists>names'. searchLoop w page names trace =
           searchLoop w (page + n) names' (trace @ map (SearchCode perPage) [page..<page + n])"
  using assms
proof (induction n arbitrary: page names trace)
  case 0
  then show ?case by auto
next
  case (Suc n)
  have "fullPage w page" using Suc.prems(1) by simp
  then obtain r d where rd: "search_code w perPage page = Some r" "ok r" "body r = Some d"
      "\<not> length (items d) < perPage"
    by (auto simp: fullPage_def split: option.splits)
  have le: "page \<le> maxPages" using Suc.prems(2) by simp
  let ?n = "foldl set_add names (map repository_full_name (items d))"
  have eq: "searchLoop w page names trace =
            searchLoop w (Suc page) ?n (trace @ [SearchCode perPage page])"
    using le rd by (subst searchLoop.simps) simp
  have "\<forall>p. Suc page \<le> p \<and> p < Suc page + n \<longrightarrow> fullPage w p" using Suc.prems(1) by simp
  moreover have "Suc page + n \<le> Suc maxPages" using Suc.prems(2) by simp
  ultimately obtain names' where
    "searchLoop w (Suc page) ?n (trace @ [SearchCode perPage page]) =
     searchLoop w (Suc page + n) names'
       ((trace @ [SearchCode perPage page]) @ map (SearchCode perPage) [Suc page..<Suc page + n])"
    using Suc.IH by blast
  moreover have "[page..<page + Suc n] = page # [Suc page..<Suc page + n]"
    by (simp add: upt_conv_Cons)
  ultimately show ?case using eq by (intro exI[of _ names']) simp
qed

lemma searchViemRepos_ok:
  assumes "token w \<noteq> None" "token w \<noteq> Some []" "searchLoop w 1 [] [] = (tr, Inr names)"
  shows "searchViemRepos engine w =
           (tr @ map GetRepo names,
            Written (js ''./viem_repositories.json'')
              (array_sort engine byStarsDesc (List.map_filter (detailRecord w) names)))"
  using assms by (auto simp: searchViemRepos_def fetchDetails_eq)

lemma searchViemRepos_err:
  assumes "token w \<noteq> None" "token w \<noteq> Some []" "searchLoop w 1 [] [] = (tr, Inl e)"
  shows "searchViemRepos engine w = (tr, Fatal e)"
  using assms by (auto simp: searchViemRepos_def)

lemma searchViemRepos_trace:
  "\<exists>k ns. k \<le> maxPages \<and> distinct ns \<and>
          fst (searchViemRepos engine w) = map (SearchCode perPage) [1..<Suc k] @ map GetRepo ns"
proof (cases "token w = None \<or> token w = Some []")
  case True
  then have "fst (searchViemRepos engine w) = []" by (auto simp: searchViemRepos_def)
  then show ?thesis by (intro exI[of _ 0] exI[of _ "[]"]) simp
next
  case False
  from searchLoop_shape[of 1 w "[]" "[]"] obtain k where
    k: "k \<le> maxPages" "fst (searchLoop w 1 [] []) = map (SearchCode perPage) [1..<Suc k]"
    by auto
  obtain tr res where l: "searchLoop w 1 [] [] = (tr, res)" by (cases "searchLoop w 1 [] []")
  with k have tr: "tr = map (SearchCode perPage) [1..<Suc k]" by simp
  show ?thesis
  proof (cases res)
    case (Inl e)
    with False l have "searchViemRepos engine w = (tr, Fatal e)" by (intro searchViemRepos_err) auto
    with tr k(1) show ?thesis by (intro exI[of _ k] exI[of _ "[]"]) simp
  next
    case (Inr names)
    with False l have "fst (searchViemRepos engine w) = tr @ map GetRepo names"
      by (subst searchViemRepos_ok[where tr = tr and names = names]) auto
    moreover have "distinct names" using searchLoop_distinct[of "[]" w 1 "[]" tr names] l Inr by simp
    ultimately show ?thesis using tr k(1) by (intro exI[of _ k] exI[of _ names]) simp
  qed
qed

lemma searchLoop_stop_at:
  assumes "1 \<le> k" "k \<le> maxPages" "\<forall>p. 1 \<le> p \<and> p < k \<longrightarrow> fullPage w p"
  shows "\<exists>names'. searchLoop w 1 [] [] =
           searchLoop w k names' (map (SearchCode perPage) [1..<k])"
proof -
  obtain n where n: "k = 1 + n" using assms(1) by (metis le_Suc_ex plus_1_eq_Suc)
  have "\<forall>p. 1 \<le> p \<and> p < 1 + n \<longrightarrow> fullPage w p" using assms(3) n by simp
  moreover have "1 + n \<le> Suc maxPages" using assms(2) n by simp
  ultimately obtain names' where
    "searchLoop w 1 [] [] = searchLoop w (1 + n) names' ([] @ map (SearchCode perPage) [1..<1 + n])"
    using searchLoop_full_prefix[of 1 n w "[]" "[]"] by blast
  then show ?thesis unfolding n by auto
qed

lemma upt_Suc_snoc: "1 \<le> k \<Longrightarrow> map f [1..<k] @ [f k] = map f [1..<Suc k]"
  by simp

lemma searchLoop_error_at:
  assumes "k \<le> maxPages" "search_code w perPage k = Some r" "\<not> ok r"
  shows "searchLoop w k names trace =
           (trace @ [SearchCode perPage k],
            Inl (case body_text r of
                   None \<Rightarrow> BodyUnreadable
                 | Some errorText \<Rightarrow> Error (apiErrorMessage (status r) (statusText r) errorText)))"
  using assms by (subst searchLoop.simps) (simp split: option.splits)

lemma decimal_403: "decimal 403 = js ''403''"
  by (simp add: decimal.simps js_def)

lemma search_world403:
  "token world403 \<noteq> None" "token world403 \<noteq> Some []"
  "search_code world403 perPage 1 = Some (failed 403)"
  by (simp_all add: world403_def)

lemma detailRecord_None:
  "detailRecord w n = None \<longleftrightarrow>
     repos w n = None \<or> (\<exists>r. repos w n = Some r \<and> (\<not> ok r \<or> body r = None))"
  by (auto simp: detailRecord_def split: option.splits)

lemma set_map_filter: "set (List.map_filter f xs) = {y. \<exists>x\<in>set xs. f x = Some y}"
  by (induction xs) (auto simp: List.map_filter_simps split: option.splits)

lemma names_neq: "js ''a/b'' \<noteq> js ''c/d''" "js ''c/d'' \<noteq> js ''a/b''"
  by (simp_all add: js_def)

lemma searchLoop_worldSmall:
  "searchLoop worldSmall 1 [] [] = ([SearchCode 100 1], Inr [js ''a/b'', js ''c/d''])"
  by (subst searchLoop.simps)
     (simp add: worldSmall_def maxPages_def perPage_def okSearch_def ok_def itemsOf_def
        set_add_def names_neq)

lemma token_worldSmall: "token worldSmall \<noteq> None" "token worldSmall \<noteq> Some []"
  by (simp_all add: worldSmall_def)

lemma detail_worldSmall:
  "detailRecord worldSmall (js ''a/b'') = Some (toGitHubRepo (repoData (js ''a/b'') (Fin 5)))"
  "detailRecord worldSmall (js ''c/d'') = None"
  by (simp_all add: detailRecord_def worldSmall_def okRepo_def ok_def failed_def names_neq)

lemma searchLoop_short_at:
  assumes "k \<le> maxPages" "search_code w perPage k = Some r" "ok r" "body r = Some d"
    "length (items d) < perPage"
  shows "searchLoop w k names trace =
           (trace @ [SearchCode perPage k],
            Inr (foldl set_add names (map repository_full_name (items d))))"
  using assms by (subst searchLoop.simps) simp

lemma searchLoop_full_at:
  assumes "k \<le> maxPages" "search_code w perPage k = Some r" "ok r" "body r = Some d"
    "\<not> length (items d) < perPage"
  shows "searchLoop w k names trace =
           searchLoop w (k + 1) (foldl set_add names (map repository_full_name (items d)))
             (trace @ [SearchCode perPage k])"
  using assms by (subst searchLoop.simps) simp

lemma nameNo_inj: "inj nameNo"
proof (rule injI)
  fix i j assume "nameNo i = nameNo j"
  then have "length (nameNo i) = length (nameNo j)" by simp
  then show "i = j" by (simp add: nameNo_def)
qed

lemma world140_facts:
  "token world140 \<noteq> None" "token world140 \<noteq> Some []"
  "search_code world140 100 1 = Some (okSearch (itemsOf (map nameNo [0..<100])))"
  "search_code world140 100 2 = Some (okSearch (itemsOf (map nameNo [100..<140])))"
  by (simp_all add: world140_def)

lemma okSearch_facts:
  "ok (okSearch its)" "body (okSearch its) = Some \<lparr>total_count = length its, items = its\<rparr>"
  by (simp_all add: okSearch_def ok_def)

lemma itemsOf_names [simp]: "map repository_full_name (itemsOf ns) = ns"
  by (simp add: itemsOf_def comp_def)

lemma length_itemsOf [simp]: "length (itemsOf ns) = length ns"
  by (simp add: itemsOf_def)

lemma distinct_nameNo_upt: "distinct (map nameNo [a..<b])"
  by (simp add: distinct_map inj_on_subset[OF nameNo_inj])

lemma distinct_names140: "distinct (map nameNo [0..<100] @ map nameNo [100..<140])"
proof -
  have "[0..<100 + 40] = [0..<100] @ [100..<100 + 40]"
    by (rule upt_add_eq_append) simp
  then have "[0..<100] @ [100..<140] = [0..<140]"
    by (simp del: upt_rec_numeral)
  then have "map nameNo [0..<100] @ map nameNo [100..<140] = map nameNo [0..<140]"
    by (simp only: flip: map_append)
  then show ?thesis by (simp only: distinct_nameNo_upt)
qed

lemma searchLoop_worldAlias:
  "searchLoop worldAlias 1 [] [] = ([SearchCode 100 1], Inr [js ''a/b'', js ''c/d''])"
  by (subst searchLoop.simps)
     (simp add: worldAlias_def maxPages_def perPage_def okSearch_def ok_def itemsOf_def
        set_add_def names_neq)

lemma detail_worldAlias:
  "detailRecord worldAlias n = Some (toGitHubRepo (repoData (js ''x/y'') (Fin 0)))"
  by (simp add: detailRecord_def worldAlias_def okRepo_def ok_def)

lemma searchViemRepos_worldAlias:
  "searchViemRepos engine worldAlias =
     ([SearchCode 100 1, GetRepo (js ''a/b''), GetRepo (js ''c/d'')],
      Written (js ''./viem_repositories.json'')
        [toGitHubRepo (repoData (js ''x/y'') (Fin 0)), toGitHubRepo (repoData (js ''x/y'') (Fin 0))])"
proof -
  have "array_sort engine byStarsDesc
          (List.map_filter (detailRecord worldAlias) [js ''a/b'', js ''c/d'']) =
        [toGitHubRepo (repoData (js ''x/y'') (Fin 0)), toGitHubRepo (repoData (js ''x/y'') (Fin 0))]"
    unfolding List.map_filter_simps detail_worldAlias option.case
    by (rule array_sort_ties)
      (simp add: cmpEqual_def byStarsDesc_def toGitHubRepo_def repoData_def toDouble_def)
  moreover have "token worldAlias \<noteq> None" "token worldAlias \<noteq> Some []"
    by (simp_all add: worldAlias_def)
  ultimately show ?thesis
    using searchViemRepos_ok[OF _ _ searchLoop_worldAlias] by simp
qed


lemma main_output:
  assumes "main engine web = Some (fetched, Written p rs)"
  shows "rs = array_sort engine byStarsDesc (recordsOf (documentsOf web fetched))"
proof -
  from assms have "scrapeGitHubDependents engine web (js ''wevm'') (js ''viem'') \<infinity> = Some (fetched, rs)"
    by (auto simp: main_def split: option.splits)
  then show ?thesis by (rule scrape_output)
qed

lemma fullPage_world140: "fullPage world140 1"
  by (simp add: fullPage_def world140_def perPage_def okSearch_facts)

section \<open>The order of a sorted output\<close>

lemma roundHalfEven_ge_1: "1 \<le> x \<Longrightarrow> 1 \<le> roundHalfEven x"
proof -
  assume "1 \<le> x"
  then have "1 \<le> \<lfloor>x\<rfloor>" by simp
  then show ?thesis by (auto simp: roundHalfEven_def Let_def)
qed

lemma roundPos_pos:
  assumes "1 \<le> q"
  shows "roundPos q = PInf \<or> (\<exists>r. 0 < r \<and> roundPos q = Fin r)"
proof -
  have q: "0 < q" using assms by simp
  have "(2::rat) powi 0 \<le> q" using assms by simp
  then have e: "0 \<le> ilog2 q" by (rule ilog2_ge[OF q])
  then have m: "max (ilog2 q) (- 1022) = ilog2 q" by simp
  define ulp :: rat where "ulp = 2 powi (ilog2 q - 52)"
  define B :: rat where "B = 2 ^ 1024"
  have u: "0 < ulp" by (simp add: ulp_def)
  have "ulp \<le> 2 powi (ilog2 q)" unfolding ulp_def by (rule powi2_mono) simp
  also have "\<dots> \<le> q" by (rule ilog2_lower[OF q])
  finally have "1 \<le> q / ulp" using u by (simp add: le_divide_eq)
  then have "1 \<le> roundHalfEven (q / ulp)" by (rule roundHalfEven_ge_1)
  then have r: "(0::rat) < of_int (roundHalfEven (q / ulp)) * ulp" using u by simp
  have eq: "roundPos q = (if B \<le> of_int (roundHalfEven (q / ulp)) * ulp then PInf
                          else Fin (of_int (roundHalfEven (q / ulp)) * ulp))"
    unfolding roundPos_def Let_def m ulp_def B_def ..
  show ?thesis
  proof (cases "B \<le> of_int (roundHalfEven (q / ulp)) * ulp")
    case True
    with eq have "roundPos q = PInf" by (simp only: if_True)
    then show ?thesis ..
  next
    case False
    with eq have "roundPos q = Fin (of_int (roundHalfEven (q / ulp)) * ulp)" by (simp only: if_False)
    with r show ?thesis by blast
  qed
qed

lemma toDouble_int_sign:
  assumes "q \<in> \<int>"
  shows "js_gt0 (toDouble q) \<longleftrightarrow> 0 < q"
proof (cases "0 < q")
  case True
  from assms obtain i where i: "q = of_int i" by (auto elim: Ints_cases)
  with True have "1 \<le> i" by simp
  then have "1 \<le> q" unfolding i by simp
  from roundPos_pos[OF this] True show ?thesis by (auto simp: toDouble_def)
next
  case False
  show ?thesis
  proof (cases "q = 0")
    case True
    then show ?thesis by (simp add: toDouble_def)
  next
    case nz: False
    with False have "0 < - q" by simp
    from roundPos_nonneg[OF this] False nz show ?thesis by (auto simp: toDouble_def)
  qed
qed

lemma byStarsDesc_gt0:
  assumes "wholeCount (stars a)" "wholeCount (stars b)"
  shows "js_gt0 (byStarsDesc a b) \<longleftrightarrow> \<not> js_ge (stars a) (stars b)"
proof -
  have "js_gt0 (js_sub y x) \<longleftrightarrow> \<not> js_ge x y" if "wholeCount x" "wholeCount y" for x y
  proof (cases x; cases y)
    fix p q assume xy: "x = Fin p" "y = Fin q"
    with that have "q - p \<in> \<int>" by simp
    from toDouble_int_sign[OF this] xy show ?thesis by auto
  qed (use that in auto)
  with assms show ?thesis by (simp add: byStarsDesc_def)
qed

lemma js_ge_total: "wholeCount x \<Longrightarrow> wholeCount y \<Longrightarrow> js_ge x y \<or> js_ge y x"
  by (cases x; cases y) auto

lemma js_ge_trans: "js_ge x y \<Longrightarrow> js_ge y z \<Longrightarrow> js_ge x z"
  by (cases x; cases y; cases z) auto

lemma nonIncreasing_Cons:
  "nonIncreasing (x # xs) \<longleftrightarrow> (xs = [] \<or> js_ge x (hd xs)) \<and> nonIncreasing xs"
  by (cases xs) auto

lemma hd_insertSorted:
  "ys \<noteq> [] \<Longrightarrow> hd (insertSorted cmp x ys) = x \<or> hd (insertSorted cmp x ys) = hd ys"
  by (cases ys) auto

lemma insertSorted_nonempty: "insertSorted cmp x ys \<noteq> []"
  by (cases ys) auto

lemma insertSorted_nonIncreasing:
  assumes "wholeCount (stars x)" "\<forall>y\<in>set ys. wholeCount (stars y)"
    "nonIncreasing (map stars ys)"
  shows "nonIncreasing (map stars (insertSorted byStarsDesc x ys))"
  using assms
proof (induction ys)
  case Nil
  then show ?case by simp
next
  case (Cons y ys)
  have wy: "wholeCount (stars y)" using Cons.prems(2) by simp
  have sorted_tl: "nonIncreasing (map stars ys)"
    using Cons.prems(3) by (simp add: nonIncreasing_Cons)
  show ?case
  proof (cases "js_gt0 (byStarsDesc x y)")
    case False
    then have "js_ge (stars x) (stars y)"
      using byStarsDesc_gt0[OF Cons.prems(1) wy] by simp
    with False Cons.prems(3) show ?thesis by simp
  next
    case True
    then have "\<not> js_ge (stars x) (stars y)"
      using byStarsDesc_gt0[OF Cons.prems(1) wy] by simp
    then have yx: "js_ge (stars y) (stars x)"
      using js_ge_total[OF Cons.prems(1) wy] by blast
    have IH: "nonIncreasing (map stars (insertSorted byStarsDesc x ys))"
      using Cons.IH Cons.prems(1,2) sorted_tl by simp
    have "js_ge (stars y) (stars (hd (insertSorted byStarsDesc x ys)))"
    proof (cases ys)
      case Nil
      then show ?thesis using yx by simp
    next
      case (Cons z zs)
      then have "js_ge (stars y) (stars (hd ys))" using Cons.prems(3) \<open>nonIncreasing (map stars (y # ys))\<close>
        by simp
      moreover have "ys \<noteq> []" using Cons by simp
      ultimately show ?thesis using hd_insertSorted[of ys byStarsDesc x] yx by auto
    qed
    then show ?thesis
      using True IH insertSorted_nonempty[of byStarsDesc x ys]
      by (simp add: nonIncreasing_Cons hd_map)
  qed
qed

lemma stableSort_nonIncreasing:
  "\<forall>r\<in>set rs. wholeCount (stars r) \<Longrightarrow> nonIncreasing (map stars (stableSort byStarsDesc rs))"
proof (induction rs)
  case Nil
  then show ?case by (simp add: stableSort_def)
next
  case (Cons r rs)
  then have "nonIncreasing (map stars (stableSort byStarsDesc rs))" by simp
  moreover have "\<forall>y\<in>set (stableSort byStarsDesc rs). wholeCount (stars y)"
    using Cons.prems mset_stableSort[of byStarsDesc rs] by (metis list.set_intros(2) set_mset_mset)
  ultimately have "nonIncreasing (map stars (insertSorted byStarsDesc r (stableSort byStarsDesc rs)))"
    using Cons.prems by (intro insertSorted_nonIncreasing) simp_all
  then show ?case by (simp add: stableSort_def)
qed

lemma toDouble_int_negative:
  assumes "q \<in> \<int>"
  shows "js_lt0 (toDouble q) \<longleftrightarrow> q < 0"
proof (cases "q < 0")
  case True
  from assms obtain i where i: "q = of_int i" by (auto elim: Ints_cases)
  with True have "1 \<le> - i" by simp
  then have "1 \<le> - q" unfolding i by (metis of_int_1_le_iff of_int_minus)
  from roundPos_pos[OF this] True show ?thesis by (auto simp: toDouble_def)
next
  case False
  show ?thesis
  proof (cases "q = 0")
    case True
    then show ?thesis by (simp add: toDouble_def)
  next
    case nz: False
    with False have "0 < q" by simp
    from roundPos_nonneg[OF this] False nz show ?thesis by (auto simp: toDouble_def)
  qed
qed

lemma byStarsDesc_lt0:
  assumes "wholeCount (stars a)" "wholeCount (stars b)"
  shows "js_lt0 (byStarsDesc a b) \<longleftrightarrow> \<not> js_ge (stars b) (stars a)"
proof -
  have "js_lt0 (js_sub y x) \<longleftrightarrow> \<not> js_ge y x" if "wholeCount x" "wholeCount y" for x y
  proof (cases x; cases y)
    fix p q assume xy: "x = Fin p" "y = Fin q"
    with that have "q - p \<in> \<int>" by simp
    from toDouble_int_negative[OF this] xy show ?thesis by auto
  qed (use that in auto)
  with assms show ?thesis by (simp add: byStarsDesc_def)
qed

text \<open>On whole star counts the comparator of the scripts is a consistent comparator.\<close>

lemma byStarsDesc_consistent:
  assumes "\<forall>r\<in>set rs. wholeCount (stars r)"
  shows "consistentComparator byStarsDesc rs"
proof -
  have lt: "cmpLess byStarsDesc a b \<longleftrightarrow> \<not> js_ge (stars b) (stars a)"
    and gt: "cmpGreater byStarsDesc a b \<longleftrightarrow> \<not> js_ge (stars a) (stars b)"
    and eq: "cmpEqual byStarsDesc a b \<longleftrightarrow> js_ge (stars a) (stars b) \<and> js_ge (stars b) (stars a)"
    if "a \<in> set rs" "b \<in> set rs" for a b
    using that assms byStarsDesc_lt0[of a b] byStarsDesc_gt0[of a b]
    by (auto simp: cmpLess_def cmpGreater_def cmpEqual_def)
  have tot: "js_ge (stars a) (stars b) \<or> js_ge (stars b) (stars a)"
    if "a \<in> set rs" "b \<in> set rs" for a b
    using that assms js_ge_total by blast
  have r: "\<forall>a\<in>set rs. cmpEqual byStarsDesc a a"
    using eq tot by blast
  have s: "\<forall>a\<in>set rs. \<forall>b\<in>set rs. cmpEqual byStarsDesc a b \<longrightarrow> cmpEqual byStarsDesc b a"
    using eq by blast
  have t: "(cmpEqual byStarsDesc a b \<and> cmpEqual byStarsDesc b c \<longrightarrow> cmpEqual byStarsDesc a c) \<and>
        (cmpLess byStarsDesc a b \<and> cmpLess byStarsDesc b c \<longrightarrow> cmpLess byStarsDesc a c) \<and>
        (cmpGreater byStarsDesc a b \<and> cmpGreater byStarsDesc b c \<longrightarrow> cmpGreater byStarsDesc a c)"
    if m: "a \<in> set rs" "b \<in> set rs" "c \<in> set rs" for a b c
  proof (intro conjI impI)
    assume "cmpEqual byStarsDesc a b \<and> cmpEqual byStarsDesc b c"
    then show "cmpEqual byStarsDesc a c"
      unfolding eq[OF m(1,2)] eq[OF m(2,3)] eq[OF m(1,3)] using js_ge_trans by blast
  next
    assume "cmpLess byStarsDesc a b \<and> cmpLess byStarsDesc b c"
    then have n: "\<not> js_ge (stars b) (stars a)" "\<not> js_ge (stars c) (stars b)"
      unfolding lt[OF m(1,2)] lt[OF m(2,3)] by simp_all
    then have "js_ge (stars a) (stars b)" using tot[OF m(1,2)] by blast
    with n(2) have "\<not> js_ge (stars c) (stars a)" using js_ge_trans by blast
    then show "cmpLess byStarsDesc a c" unfolding lt[OF m(1,3)] .
  next
    assume "cmpGreater byStarsDesc a b \<and> cmpGreater byStarsDesc b c"
    then have n: "\<not> js_ge (stars a) (stars b)" "\<not> js_ge (stars b) (stars c)"
      unfolding gt[OF m(1,2)] gt[OF m(2,3)] by simp_all
    then have "js_ge (stars c) (stars b)" using tot[OF m(2,3)] by blast
    with n(1) have "\<not> js_ge (stars a) (stars c)" using js_ge_trans by blast
    then show "cmpGreater byStarsDesc a c" unfolding gt[OF m(1,3)] .
  qed
  show ?thesis unfolding consistentComparator_def using r s t by blast
qed

lemma array_sort_whole:
  "\<forall>r\<in>set rs. wholeCount (stars r) \<Longrightarrow> array_sort engine byStarsDesc rs = stableSort byStarsDesc rs"
  by (intro array_sort_consistent byStarsDesc_consistent)

lemma array_sort_nonIncreasing:
  "\<forall>r\<in>set rs. wholeCount (stars r) \<Longrightarrow>
   nonIncreasing (map stars (array_sort engine byStarsDesc rs))"
  by (simp add: array_sort_whole stableSort_nonIncreasing)

text \<open>A list of at least two star counts one of which is NaN is in no order.\<close>

lemma nonIncreasing_no_NaN:
  "nonIncreasing xs \<Longrightarrow> 2 \<le> length xs \<Longrightarrow> NaN \<notin> set xs"
proof (induction xs rule: nonIncreasing.induct)
  case (3 x y r)
  then have ge: "js_ge x y" and tl: "nonIncreasing (y # r)" by simp_all
  from ge have "x \<noteq> NaN" "y \<noteq> NaN" by (cases x; cases y; simp)+
  moreover have "NaN \<notin> set r"
  proof (cases r)
    case Nil
    then show ?thesis by simp
  next
    case (Cons z zs)
    with "3.IH"[OF tl] show ?thesis by simp
  qed
  ultimately show ?case by auto
qed simp_all

lemma array_sort_with_NaN:
  assumes "\<exists>r\<in>set rs. stars r = NaN" "2 \<le> length rs"
  shows "\<not> nonIncreasing (map stars (array_sort engine cmp rs))"
proof
  assume "nonIncreasing (map stars (array_sort engine cmp rs))"
  moreover have "2 \<le> length (map stars (array_sort engine cmp rs))"
    using assms(2) by (simp add: length_array_sort)
  ultimately have "NaN \<notin> set (map stars (array_sort engine cmp rs))"
    by (rule nonIncreasing_no_NaN)
  then have "NaN \<notin> stars ` set rs" by (simp add: set_array_sort)
  then show False using assms(1) by (metis imageI)
qed

lemma parseStarCount_wholeCount: "parseStarCount s \<noteq> NaN \<Longrightarrow> wholeCount (parseStarCount s)"
  using parseStarCount_integral[of s] by (cases "parseStarCount s") auto

lemma recordsOf_wholeCount:
  assumes "\<forall>r\<in>set (recordsOf ps). stars r \<noteq> NaN"
  shows "\<forall>r\<in>set (recordsOf ps). wholeCount (stars r)"
proof
  fix r assume r: "r \<in> set (recordsOf ps)"
  then obtain box where "parseBox box = Some r" using recordsOf_parseBox by blast
  then have "stars r = parseStarCount (trim (stars_text box))" by (rule parseBox_Some(4))
  moreover have "stars r \<noteq> NaN" using assms r by simp
  ultimately show "wholeCount (stars r)" using parseStarCount_wholeCount by simp
qed

lemma scraper_sorted_without_NaN:
  "\<forall>r\<in>set (recordsOf ps). stars r \<noteq> NaN \<Longrightarrow>
   nonIncreasing (map stars (array_sort engine byStarsDesc (recordsOf ps)))"
  by (intro array_sort_nonIncreasing recordsOf_wholeCount)

lemma collector_sorted_whole_counts:
  assumes "token w \<noteq> None" "token w \<noteq> Some []" "searchLoop w 1 [] [] = (tr, Inr names)"
    and "\<forall>n\<in>set names. \<forall>r. detailRecord w n = Some r \<longrightarrow> wholeCount (stars r)"
  shows "\<exists>rs. snd (searchViemRepos engine w) = Written (js ''./viem_repositories.json'') rs \<and>
              nonIncreasing (map stars rs)"
proof -
  have "\<forall>r\<in>set (List.map_filter (detailRecord w) names). wholeCount (stars r)"
    using assms(4) by (auto simp: set_map_filter)
  then have "nonIncreasing (map stars (array_sort engine byStarsDesc (List.map_filter (detailRecord w) names)))"
    by (rule array_sort_nonIncreasing)
  then show ?thesis unfolding searchViemRepos_ok[OF assms(1-3)] by simp
qed

text \<open>Where the comparator is not consistent the written order is the engine's.  With the
  stars 1, 2, NaN, 3, 4 it is not: 1 ties with NaN and NaN with 2, but 1 does not tie with
  2.  An engine that returns the order 4, 3, 2, 1, NaN there has it written.\<close>

lemma array_sort_engine:
  "\<not> consistentComparator cmp xs \<Longrightarrow> mset (engine cmp xs) = mset xs \<Longrightarrow>
   array_sort engine cmp xs = engine cmp xs"
  by (simp add: array_sort_def)

lemma inconsistent_with_NaN:
  assumes "a \<in> set rs" "b \<in> set rs" "c \<in> set rs"
    and "stars a = Fin 1" "stars b = NaN" "stars c = Fin 2"
  shows "\<not> consistentComparator byStarsDesc rs"
proof
  assume "consistentComparator byStarsDesc rs"
  then have "cmpEqual byStarsDesc a b \<and> cmpEqual byStarsDesc b c \<longrightarrow> cmpEqual byStarsDesc a c"
    unfolding consistentComparator_def using assms(1-3) by blast
  moreover have "cmpEqual byStarsDesc a b" "cmpEqual byStarsDesc b c"
    using assms(4-6) by (simp_all add: cmpEqual_def byStarsDesc_def)
  moreover have "js_sub (Fin 2) (Fin 1) = Fin 1"
    using toDouble_numeral[of Num.One] by simp
  then have "\<not> cmpEqual byStarsDesc a c"
    using assms(4-6) by (simp add: cmpEqual_def byStarsDesc_def)
  ultimately show False by blast
qed

lemma sort_follows_engine:
  assumes "rs = [repoOf n1 f1 (Fin 1), repoOf n2 f2 (Fin 2), repoOf n3 f3 NaN,
                 repoOf n4 f4 (Fin 3), repoOf n5 f5 (Fin 4)]"
    and "engine byStarsDesc rs = [repoOf n5 f5 (Fin 4), repoOf n4 f4 (Fin 3), repoOf n2 f2 (Fin 2),
                 repoOf n1 f1 (Fin 1), repoOf n3 f3 NaN]"
  shows "array_sort engine byStarsDesc rs = [repoOf n5 f5 (Fin 4), repoOf n4 f4 (Fin 3),
                 repoOf n2 f2 (Fin 2), repoOf n1 f1 (Fin 1), repoOf n3 f3 NaN]"
proof -
  have "\<not> consistentComparator byStarsDesc rs"
    by (rule inconsistent_with_NaN[of "repoOf n1 f1 (Fin 1)" _ "repoOf n3 f3 NaN" "repoOf n2 f2 (Fin 2)"])
       (simp_all add: assms(1) repoOf_def)
  moreover have "mset (engine byStarsDesc rs) = mset rs"
    unfolding assms(2) unfolding assms(1) by (simp add: ac_simps)
  ultimately show ?thesis using assms(2) by (simp add: array_sort_engine)
qed

section \<open>The sort under a consistent comparator\<close>

lemma cmp_exclusive: "\<not> (cmpLess cmp a b \<and> cmpGreater cmp a b)"
  by (cases "cmp a b") (simp_all add: cmpLess_def cmpGreater_def)

lemma cmpEqual_iff: "cmpEqual cmp a b \<longleftrightarrow> \<not> cmpLess cmp a b \<and> \<not> cmpGreater cmp a b"
  by (simp add: cmpEqual_def cmpLess_def cmpGreater_def)

lemma consistent_flip:
  assumes "consistentComparator cmp xs" "a \<in> set xs" "b \<in> set xs"
  shows "cmpGreater cmp a b \<longleftrightarrow> cmpLess cmp b a"
proof -
  have refl: "cmpEqual cmp x x" if "x \<in> set xs" for x
    using assms(1) that unfolding consistentComparator_def by blast
  have sym: "cmpEqual cmp x y \<Longrightarrow> cmpEqual cmp y x" if "x \<in> set xs" "y \<in> set xs" for x y
    using assms(1) that unfolding consistentComparator_def by blast
  have lt: "cmpLess cmp x y \<Longrightarrow> cmpLess cmp y z \<Longrightarrow> cmpLess cmp x z"
    if "x \<in> set xs" "y \<in> set xs" "z \<in> set xs" for x y z
    using assms(1) that unfolding consistentComparator_def by blast
  have gt: "cmpGreater cmp x y \<Longrightarrow> cmpGreater cmp y z \<Longrightarrow> cmpGreater cmp x z"
    if "x \<in> set xs" "y \<in> set xs" "z \<in> set xs" for x y z
    using assms(1) that unfolding consistentComparator_def by blast
  show ?thesis
  proof
    assume g: "cmpGreater cmp a b"
    then have "\<not> cmpEqual cmp a b" by (simp add: cmpEqual_iff)
    then have "\<not> cmpEqual cmp b a" using sym[OF assms(3,2)] by blast
    moreover have "\<not> cmpGreater cmp b a"
    proof
      assume "cmpGreater cmp b a"
      with g have "cmpGreater cmp a a" using gt[OF assms(2,3,2)] by blast
      then show False using refl[OF assms(2)] by (simp add: cmpEqual_iff)
    qed
    ultimately show "cmpLess cmp b a" by (simp add: cmpEqual_iff)
  next
    assume l: "cmpLess cmp b a"
    then have "\<not> cmpEqual cmp b a" by (simp add: cmpEqual_iff)
    then have "\<not> cmpEqual cmp a b" using sym[OF assms(2,3)] by blast
    moreover have "\<not> cmpLess cmp a b"
    proof
      assume "cmpLess cmp a b"
      with l have "cmpLess cmp b b" using lt[OF assms(3,2,3)] by blast
      then show False using refl[OF assms(3)] by (simp add: cmpEqual_iff)
    qed
    ultimately show "cmpGreater cmp a b" by (simp add: cmpEqual_iff)
  qed
qed

lemma consistent_le_trans:
  assumes c: "consistentComparator cmp xs" and m: "a \<in> set xs" "b \<in> set xs" "c \<in> set xs"
    and ab: "\<not> cmpGreater cmp a b" and bc: "\<not> cmpGreater cmp b c"
  shows "\<not> cmpGreater cmp a c"
proof
  assume ac: "cmpGreater cmp a c"
  have sym: "cmpEqual cmp x y \<Longrightarrow> cmpEqual cmp y x" if "x \<in> set xs" "y \<in> set xs" for x y
    using c that unfolding consistentComparator_def by blast
  have eq: "cmpEqual cmp x y \<Longrightarrow> cmpEqual cmp y z \<Longrightarrow> cmpEqual cmp x z"
    if "x \<in> set xs" "y \<in> set xs" "z \<in> set xs" for x y z
    using c that unfolding consistentComparator_def by blast
  have lt: "cmpLess cmp x y \<Longrightarrow> cmpLess cmp y z \<Longrightarrow> cmpLess cmp x z"
    if "x \<in> set xs" "y \<in> set xs" "z \<in> set xs" for x y z
    using c that unfolding consistentComparator_def by blast
  from ac have ca: "cmpLess cmp c a" using consistent_flip[OF c m(1,3)] by simp
  from ac have nac: "\<not> cmpEqual cmp a c" "\<not> cmpLess cmp a c"
    using cmp_exclusive[of cmp a c] by (simp_all add: cmpEqual_iff)
  consider "cmpLess cmp a b" | "cmpEqual cmp a b" using ab by (auto simp: cmpEqual_iff)
  then show False
  proof cases
    case 1
    with ca have cb: "cmpLess cmp c b" using lt[OF m(3,1,2)] by blast
    then have "cmpGreater cmp b c" using consistent_flip[OF c m(2,3)] by simp
    with bc show False by simp
  next
    case 2
    consider "cmpLess cmp b c" | "cmpEqual cmp b c" using bc by (auto simp: cmpEqual_iff)
    then show False
    proof cases
      case 1
      with ca have "cmpLess cmp b a" using lt[OF m(2,3,1)] by blast
      then have "\<not> cmpEqual cmp b a" by (simp add: cmpEqual_iff)
      with 2 show False using sym[OF m(1,2)] by blast
    next
      case 2
      with \<open>cmpEqual cmp a b\<close> have "cmpEqual cmp a c" using eq[OF m] by blast
      with nac show False by simp
    qed
  qed
qed

lemma set_insertSorted: "set (insertSorted cmp x ys) = insert x (set ys)"
  using mset_insertSorted[of cmp x ys] by (metis set_mset_add_mset_insert set_mset_mset)

lemma insertSorted_sorted:
  assumes "consistentComparator cmp xs" "x \<in> set xs" "set ys \<subseteq> set xs"
    and "sorted_wrt (\<lambda>a b. \<not> cmpGreater cmp a b) ys"
  shows "sorted_wrt (\<lambda>a b. \<not> cmpGreater cmp a b) (insertSorted cmp x ys)"
  using assms(3,4)
proof (induction ys)
  case Nil
  then show ?case by simp
next
  case (Cons y ys)
  have y: "y \<in> set xs" and ys: "set ys \<subseteq> set xs" using Cons.prems(1) by simp_all
  have tl: "sorted_wrt (\<lambda>a b. \<not> cmpGreater cmp a b) ys"
    and hd: "\<forall>z\<in>set ys. \<not> cmpGreater cmp y z"
    using Cons.prems(2) by simp_all
  show ?case
  proof (cases "js_gt0 (cmp x y)")
    case True
    then have "cmpGreater cmp x y" by (simp add: cmpGreater_def)
    then have "cmpLess cmp y x" using consistent_flip[OF assms(1,2) y] by simp
    then have "\<not> cmpGreater cmp y x" using cmp_exclusive[of cmp y x] by blast
    with hd have "\<forall>z\<in>set (insertSorted cmp x ys). \<not> cmpGreater cmp y z"
      by (simp add: set_insertSorted)
    with True Cons.IH[OF ys tl] show ?thesis by simp
  next
    case False
    then have xy: "\<not> cmpGreater cmp x y" by (simp add: cmpGreater_def)
    have "\<not> cmpGreater cmp x z" if "z \<in> set ys" for z
    proof -
      have "z \<in> set xs" using that ys by blast
      moreover have "\<not> cmpGreater cmp y z" using hd that by blast
      ultimately show ?thesis using consistent_le_trans[OF assms(1,2) y _ xy] by blast
    qed
    with False xy Cons.prems(2) show ?thesis by simp
  qed
qed

text \<open>For a consistent comparator \<open>stableSort\<close> returns what the language asks of \<open>sort\<close>: a
  rearrangement (\<open>mset_stableSort\<close>) in which no element compares greater than a later
  one, and in which the elements that tie with a given one keep their order.\<close>

lemma stableSort_sorted:
  "consistentComparator cmp xs \<Longrightarrow> sorted_wrt (\<lambda>a b. \<not> cmpGreater cmp a b) (stableSort cmp xs)"
proof -
  assume c: "consistentComparator cmp xs"
  have "sorted_wrt (\<lambda>a b. \<not> cmpGreater cmp a b) (stableSort cmp zs)" if "set zs \<subseteq> set xs" for zs
    using that
  proof (induction zs)
    case Nil
    then show ?case by (simp add: stableSort_def)
  next
    case (Cons z zs)
    then have "sorted_wrt (\<lambda>a b. \<not> cmpGreater cmp a b) (stableSort cmp zs)" by simp
    moreover have "set (stableSort cmp zs) \<subseteq> set xs"
      using Cons.prems mset_stableSort[of cmp zs] by (metis set_mset_mset set_subset_Cons subset_trans)
    moreover have "z \<in> set xs" using Cons.prems by simp
    ultimately have "sorted_wrt (\<lambda>a b. \<not> cmpGreater cmp a b) (insertSorted cmp z (stableSort cmp zs))"
      by (intro insertSorted_sorted[OF c])
    then show ?case by (simp add: stableSort_def)
  qed
  then show ?thesis by simp
qed

lemma insertSorted_stable:
  assumes "consistentComparator cmp xs" "a \<in> set xs" "x \<in> set xs" "set ys \<subseteq> set xs"
  shows "filter (cmpEqual cmp a) (insertSorted cmp x ys) = filter (cmpEqual cmp a) (x # ys)"
  using assms(4)
proof (induction ys)
  case Nil
  then show ?case by simp
next
  case (Cons y ys)
  have y: "y \<in> set xs" and ys: "set ys \<subseteq> set xs" using Cons.prems by simp_all
  have sym: "cmpEqual cmp u v \<Longrightarrow> cmpEqual cmp v u" if "u \<in> set xs" "v \<in> set xs" for u v
    using assms(1) that unfolding consistentComparator_def by blast
  have eq: "cmpEqual cmp u v \<Longrightarrow> cmpEqual cmp v w \<Longrightarrow> cmpEqual cmp u w"
    if "u \<in> set xs" "v \<in> set xs" "w \<in> set xs" for u v w
    using assms(1) that unfolding consistentComparator_def by blast
  show ?case
  proof (cases "js_gt0 (cmp x y)")
    case False
    then show ?thesis by simp
  next
    case True
    then have "\<not> cmpEqual cmp x y" by (simp add: cmpEqual_def)
    then have "\<not> (cmpEqual cmp a x \<and> cmpEqual cmp a y)"
      using sym[OF assms(2,3)] eq[OF assms(3,2) y] by blast
    with True Cons.IH[OF ys] show ?thesis by auto
  qed
qed

lemma stableSort_stable:
  assumes "consistentComparator cmp xs" "a \<in> set xs"
  shows "filter (cmpEqual cmp a) (stableSort cmp xs) = filter (cmpEqual cmp a) xs"
proof -
  have "filter (cmpEqual cmp a) (stableSort cmp zs) = filter (cmpEqual cmp a) zs"
    if "set zs \<subseteq> set xs" for zs
    using that
  proof (induction zs)
    case Nil
    then show ?case by (simp add: stableSort_def)
  next
    case (Cons z zs)
    then have IH: "filter (cmpEqual cmp a) (stableSort cmp zs) = filter (cmpEqual cmp a) zs" by simp
    have "set (stableSort cmp zs) \<subseteq> set xs"
      using Cons.prems mset_stableSort[of cmp zs] by (metis set_mset_mset set_subset_Cons subset_trans)
    moreover have "z \<in> set xs" using Cons.prems by simp
    ultimately have "filter (cmpEqual cmp a) (insertSorted cmp z (stableSort cmp zs)) =
                     filter (cmpEqual cmp a) (z # stableSort cmp zs)"
      by (intro insertSorted_stable[OF assms])
    then show ?case using IH by (simp add: stableSort_def)
  qed
  then show ?thesis by simp
qed
section \<open>Further runs on example environments\<close>

lemma parseBox_m: "parseBox (rowOf (js ''/e/f'') (js ''m'')) = Some (repoOf (js ''f'') (js ''e/f'') NaN)"
  by (simp add: box_defs parse_defs)

lemma parseBox_3: "parseBox (rowOf (js ''/g/h'') (js ''3'')) = Some (repoOf (js ''h'') (js ''g/h'') (Fin 3))"
  by (simp add: box_defs parse_defs toDouble_numeral)

lemma sort_NaN_pair:
  "array_sort engine byStarsDesc [repoOf n f NaN, repoOf n' f' (Fin q)] =
     [repoOf n f NaN, repoOf n' f' (Fin q)]"
  by (rule array_sort_ties) (simp add: cmpEqual_def byStarsDesc_def repoOf_def toDouble_def)

lemma pageRecords_pageNaNNext:
  "pageRecords pageNaNNext = [repoOf (js ''b'') (js ''a/b'') NaN, repoOf (js ''d'') (js ''c/d'') (Fin 7)]"
  by (simp add: pageRecords_def pageNaNNext_def List.map_filter_simps parseBox_k parseBox_7)

lemma pageRecords_pageNaNLast:
  "pageRecords pageNaNLast = [repoOf (js ''f'') (js ''e/f'') NaN, repoOf (js ''h'') (js ''g/h'') (Fin 3)]"
  by (simp add: pageRecords_def pageNaNLast_def List.map_filter_simps parseBox_m parseBox_3)

lemma follow_webFailNaN:
  "follow webFailNaN 1 (baseUrl (js ''wevm'') (js ''viem'')) [pageNaNNext] =
     Some ([viemUrl], js ''https://github.com/p2'')"
  by (simp add: webFailNaN_def viemUrl_def[symmetric] viemUrl_nonempty ok_okPage nextUrl_p2
        pageNaNNext_def rowOf_def)

lemma main_webFailNaN:
  "main engine webFailNaN =
     Some ([viemUrl, js ''https://github.com/p2''],
           Written (js ''./viem_dependents_scraped.json'')
             [repoOf (js ''b'') (js ''a/b'') NaN, repoOf (js ''d'') (js ''c/d'') (Fin 7)])"
proof -
  have w: "webFailNaN (Suc (length [pageNaNNext])) (js ''https://github.com/p2'') = Some (failed 500)"
    by (simp add: webFailNaN_def viemUrl_neq_p2)
  have "(\<exists>r. webFailNaN (Suc (length [pageNaNNext])) (js ''https://github.com/p2'') = Some r \<and>
              (\<not> ok r \<or> body r = None \<or> (\<exists>p. body r = Some p \<and> boxes p = []))) \<or>
         webFailNaN (Suc (length [pageNaNNext])) (js ''https://github.com/p2'') = None \<or>
         \<not> enat (Suc (length [pageNaNNext])) \<le> \<infinity>"
    unfolding w using not_ok_failed by blast
  from scrape_stops[OF follow_webFailNaN _ this, of engine]
  have "scrapeGitHubDependents engine webFailNaN (js ''wevm'') (js ''viem'') \<infinity> =
          Some ([viemUrl, js ''https://github.com/p2''],
                array_sort engine byStarsDesc (recordsOf [pageNaNNext]))"
    by simp
  then show ?thesis
    by (simp add: main_def recordsOf_def pageRecords_pageNaNNext sort_NaN_pair)
qed

lemma main_webNaNLast:
  "main engine webNaNLast =
     Some ([viemUrl], Written (js ''./viem_dependents_scraped.json'')
             [repoOf (js ''f'') (js ''e/f'') NaN, repoOf (js ''h'') (js ''g/h'') (Fin 3)])"
proof -
  have "main engine webNaNLast = Some ([viemUrl], Written (js ''./viem_dependents_scraped.json'')
                                      (array_sort engine byStarsDesc (pageRecords pageNaNLast)))"
    by (rule main_single) (simp_all add: webNaNLast_def terminalPage_def pageNaNLast_def)
  then show ?thesis by (simp add: pageRecords_pageNaNLast sort_NaN_pair)
qed

lemma main_webEmptySecond:
  "main engine webEmptySecond =
     Some ([viemUrl, js ''https://github.com/p2''],
           Written (js ''./viem_dependents_scraped.json'') [repoOf (js ''b'') (js ''a/b'') (Fin 0)])"
proof -
  have w: "webEmptySecond (Suc (length [pageNext])) (js ''https://github.com/p2'') = Some (okPage pageEmpty)"
    by (simp add: webEmptySecond_def viemUrl_neq_p2)
  from scrape_terminal[OF follow_webEmptySecond _ w ok_okPage terminal_pageEmpty, of \<infinity> engine]
  show ?thesis
    by (simp add: main_def recordsOf_def pageRecords_pageNext pageRecords_pageEmpty array_sort_single)
qed

lemma documentsOf_single:
  "web 1 u = Some (okPage p) \<Longrightarrow> documentsOf web [u] = [p]"
  by (simp add: documentsOf_def ok_okPage)

lemma documentsOf_webDup: "documentsOf webDup [viemUrl] = [pageDup]"
  by (rule documentsOf_single) (simp add: webDup_def)


lemma searchLoop_worldTwo:
  "searchLoop worldTwo 1 [] [] = ([SearchCode 100 1], Inr [js ''a/b'', js ''c/d''])"
  by (subst searchLoop.simps)
     (simp add: worldTwo_def maxPages_def perPage_def okSearch_def ok_def itemsOf_def
        set_add_def names_neq)

lemma token_worldTwo: "token worldTwo \<noteq> None" "token worldTwo \<noteq> Some []"
  by (simp_all add: worldTwo_def)

lemma detail_worldTwo: "detailRecord worldTwo n = Some (toGitHubRepo (repoData n (Fin 0)))"
  by (simp add: detailRecord_def worldTwo_def okRepo_def ok_def)

lemma searchViemRepos_worldTwo:
  "searchViemRepos engine worldTwo =
     ([SearchCode 100 1, GetRepo (js ''a/b''), GetRepo (js ''c/d'')],
      Written (js ''./viem_repositories.json'')
        [toGitHubRepo (repoData (js ''a/b'') (Fin 0)), toGitHubRepo (repoData (js ''c/d'') (Fin 0))])"
proof -
  have "array_sort engine byStarsDesc
          (List.map_filter (detailRecord worldTwo) [js ''a/b'', js ''c/d'']) =
        [toGitHubRepo (repoData (js ''a/b'') (Fin 0)), toGitHubRepo (repoData (js ''c/d'') (Fin 0))]"
    unfolding List.map_filter_simps detail_worldTwo option.case
    by (rule array_sort_ties)
      (simp add: cmpEqual_def byStarsDesc_def toGitHubRepo_def repoData_def toDouble_def)
  then show ?thesis
    using searchViemRepos_ok[OF token_worldTwo searchLoop_worldTwo] by simp
qed





section \<open>How a run of the scraper ends\<close>

text \<open>Let the documents \<open>ps\<close> be fetched one after the other (each with rows and an enabled
  Next link), within the page cap.  If the next request is answered with a non-success
  status, or rejected, or its body cannot be read, or its document has no row, or the page
  cap is reached, the loop ends and the result is the records of \<open>ps\<close> passed through the
  sort; \<open>main\<close> writes exactly this array.  It is non-increasing in \<open>stars\<close> whenever none
  of the records has NaN for \<open>stars\<close>.\<close>

lemma scraper_ends_on_failure:
  assumes "follow web 1 (baseUrl owner repo) ps = Some (us, u)"
    and "enat (length ps) \<le> mp"
    and "(\<exists>r. web (Suc (length ps)) u = Some r \<and>
              (\<not> ok r \<or> body r = None \<or> (\<exists>p. body r = Some p \<and> boxes p = []))) \<or>
         web (Suc (length ps)) u = None \<or> \<not> enat (Suc (length ps)) \<le> mp"
  shows "scrapeGitHubDependents engine web owner repo mp =
           Some (us @ (if enat (Suc (length ps)) \<le> mp then [u] else []),
                 array_sort engine byStarsDesc (recordsOf ps)) \<and>
         (owner = js ''wevm'' \<and> repo = js ''viem'' \<and> mp = \<infinity> \<longrightarrow>
            main engine web = Some (us @ [u], Written (js ''./viem_dependents_scraped.json'')
                                         (array_sort engine byStarsDesc (recordsOf ps)))) \<and>
         ((\<forall>r\<in>set (recordsOf ps). stars r \<noteq> NaN) \<longrightarrow>
            nonIncreasing (map stars (array_sort engine byStarsDesc (recordsOf ps))))"
proof -
  have s: "scrapeGitHubDependents engine web owner repo mp =
           Some (us @ (if enat (Suc (length ps)) \<le> mp then [u] else []),
                 array_sort engine byStarsDesc (recordsOf ps))"
    by (rule scrape_stops[OF assms])
  moreover have "main engine web = Some (us @ [u], Written (js ''./viem_dependents_scraped.json'')
                                         (array_sort engine byStarsDesc (recordsOf ps)))"
    if "owner = js ''wevm''" "repo = js ''viem''" "mp = \<infinity>"
    using s unfolding that by (intro main_of_scrape) simp
  moreover have "nonIncreasing (map stars (array_sort engine byStarsDesc (recordsOf ps)))"
    if "\<forall>r\<in>set (recordsOf ps). stars r \<noteq> NaN"
    using that by (rule scraper_sorted_without_NaN)
  ultimately show ?thesis by blast
qed

text \<open>Let the next request, within the page cap, be answered with success by a document
  \<open>p\<close> that has no row, or whose Next control is absent, without target, or disabled.  Then
  the requests issued are exactly those for \<open>ps\<close> and the one for \<open>p\<close>; the records of all
  rows of \<open>ps\<close> and \<open>p\<close> go through the sort and are written.\<close>

lemma scraper_ends_at_terminal_page:
  assumes "follow web 1 (baseUrl owner repo) ps = Some (us, u)"
    and "enat (Suc (length ps)) \<le> mp"
    and "web (Suc (length ps)) u = Some r" and "ok r" and "body r = Some p"
    and "terminalPage p"
  shows "scrapeGitHubDependents engine web owner repo mp =
           Some (us @ [u], array_sort engine byStarsDesc (recordsOf (ps @ [p]))) \<and>
         length (us @ [u]) = Suc (length ps) \<and>
         (ps = [] \<longrightarrow> us @ [u] = [baseUrl owner repo]) \<and>
         (owner = js ''wevm'' \<and> repo = js ''viem'' \<and> mp = \<infinity> \<longrightarrow>
            main engine web = Some (us @ [u], Written (js ''./viem_dependents_scraped.json'')
                                         (array_sort engine byStarsDesc (recordsOf (ps @ [p]))))) \<and>
         ((\<forall>r\<in>set (recordsOf (ps @ [p])). stars r \<noteq> NaN) \<longrightarrow>
            nonIncreasing (map stars (array_sort engine byStarsDesc (recordsOf (ps @ [p])))))"
proof -
  have s: "scrapeGitHubDependents engine web owner repo mp =
           Some (us @ [u], array_sort engine byStarsDesc (recordsOf (ps @ [p])))"
    by (rule scrape_terminal[OF assms])
  have l: "length us = length ps"
    using follow_props[OF assms(1) baseUrl_nonempty] by simp
  have e: "us @ [u] = [baseUrl owner repo]" if "ps = []"
    using assms(1) unfolding that by simp
  have "main engine web = Some (us @ [u], Written (js ''./viem_dependents_scraped.json'')
                                         (array_sort engine byStarsDesc (recordsOf (ps @ [p]))))"
    if "owner = js ''wevm''" "repo = js ''viem''" "mp = \<infinity>"
    using s unfolding that by (intro main_of_scrape) simp
  moreover have "nonIncreasing (map stars (array_sort engine byStarsDesc (recordsOf (ps @ [p]))))"
    if "\<forall>r\<in>set (recordsOf (ps @ [p])). stars r \<noteq> NaN"
    using that by (rule scraper_sorted_without_NaN)
  ultimately show ?thesis using s l e by simp
qed

text \<open>Whatever the engine, an output of the scraper with at least two records one of which
  has NaN for \<open>stars\<close> is not in non-increasing order.\<close>

lemma scraper_output_with_NaN:
  assumes "main engine web = Some (fetched, Written p rs)"
    and "\<exists>r\<in>set rs. stars r = NaN" and "2 \<le> length rs"
  shows "\<not> nonIncreasing (map stars rs)"
proof
  assume "nonIncreasing (map stars rs)"
  moreover have "2 \<le> length (map stars rs)" using assms(3) by simp
  ultimately have "NaN \<notin> set (map stars rs)" by (rule nonIncreasing_no_NaN)
  then have "NaN \<notin> stars ` set rs" by simp
  then show False using assms(2) by (metis imageI)
qed

section \<open>The requests and documents of a run\<close>

text \<open>Every run of \<open>main\<close> that ends is a chain of documents with rows and an enabled Next
  link, followed from the dependents URL, and a last request that ends it; its output is
  the records of these documents, passed through the sort.  Conversely every such chain is
  run through in this way.\<close>

lemma scrapeLoop_run:
  assumes "scrapeLoop web mp n nu f acc = Some res"
  shows "mp = \<infinity> \<longrightarrow> (\<forall>u. nu = Some u \<and> u \<noteq> [] \<longrightarrow>
           (\<exists>ps us u' final. follow web n u ps = Some (us, u') \<and>
              endsWith web (n + length ps) u' final \<and>
              res = (f @ us @ [u'], acc @ recordsOf (ps @ final))))"
  using assms
proof (induction web mp n nu f acc res rule: scrapeLoop.raw_induct[rotated 1, consumes 1])
  case (1 loop web mp n nu f acc res)
  note IH = "1"(1) and bd = "1"(2)
  show ?case
  proof (intro impI allI)
    fix u
    assume mp: "mp = \<infinity>" and nu: "nu = Some u \<and> u \<noteq> []"
    then have cap: "enat n \<le> mp" by simp
    have stop: "\<exists>ps us u' final. follow web n u ps = Some (us, u') \<and>
              endsWith web (n + length ps) u' final \<and>
              res = (f @ us @ [u'], acc @ recordsOf (ps @ final))"
      if "endsWith web n u final" "res = (f @ [u], acc @ recordsOf final)" for final
      using that by (intro exI[of _ "[]"] exI[of _ u] exI[of _ final]) simp
    show "\<exists>ps us u' final. follow web n u ps = Some (us, u') \<and>
              endsWith web (n + length ps) u' final \<and>
              res = (f @ us @ [u'], acc @ recordsOf (ps @ final))"
    proof (cases "web n u")
      case None
      with bd nu cap have "res = (f @ [u], acc)" by simp
      moreover have "endsWith web n u []" using None by (simp add: endsWith_def)
      ultimately show ?thesis by (intro stop[of "[]"]) (simp_all add: recordsOf_def)
    next
      case (Some r)
      show ?thesis
      proof (cases "ok r")
        case False
        with bd nu cap Some have "res = (f @ [u], acc)" by simp
        moreover have "endsWith web n u []" using Some False by (simp add: endsWith_def)
        ultimately show ?thesis by (intro stop[of "[]"]) (simp_all add: recordsOf_def)
      next
        case True
        show ?thesis
        proof (cases "body r")
          case None
          with bd nu cap Some True have "res = (f @ [u], acc)" by simp
          moreover have "endsWith web n u []" using Some True None by (simp add: endsWith_def)
          ultimately show ?thesis by (intro stop[of "[]"]) (simp_all add: recordsOf_def)
        next
          case p: (Some p)
          show ?thesis
          proof (cases "terminalPage p")
            case t: True
            have e: "endsWith web n u [p]" using Some True p t by (simp add: endsWith_def)
            have "res = (f @ [u], acc @ pageRecords p)"
              using bd nu cap Some True p t
              by (auto simp: terminalPage_def pageRecords_def List.map_filter_simps
                    split: option.splits if_splits)
            then show ?thesis using e by (intro stop[of "[p]"]) (simp_all add: recordsOf_def)
          next
            case False
            then obtain h where h: "boxes p \<noteq> []" "next_href p = Some h" "h \<noteq> []" "\<not> next_disabled p"
              by (auto simp: terminalPage_def)
            with bd nu cap Some True p
            have "loop web mp (n + 1) (Some (nextUrl h)) (f @ [u]) (acc @ pageRecords p) = Some res"
              by simp
            from IH[OF this] mp nextUrl_nonempty[OF h(3)] obtain ps us u' final where
              r: "follow web (n + 1) (nextUrl h) ps = Some (us, u')"
                 "endsWith web (n + 1 + length ps) u' final"
                 "res = ((f @ [u]) @ us @ [u'], (acc @ pageRecords p) @ recordsOf (ps @ final))"
              by blast
            have "follow web n u (p # ps) = Some (u # us, u')"
              using nu Some True p h r(1) by simp
            moreover have "endsWith web (n + length (p # ps)) u' final" using r(2) by simp
            moreover have "res = (f @ (u # us) @ [u'], acc @ recordsOf ((p # ps) @ final))"
              using r(3) by (simp add: recordsOf_def)
            ultimately show ?thesis by blast
          qed
        qed
      qed
    qed
  qed
qed

lemma main_run:
  assumes "main engine web = Some (fetched, Written p rs)"
  shows "\<exists>ps us u final. follow web 1 viemUrl ps = Some (us, u) \<and>
           endsWith web (Suc (length ps)) u final \<and> fetched = us @ [u] \<and>
           rs = array_sort engine byStarsDesc (recordsOf (ps @ final))"
proof -
  from assms obtain acc where
    l: "scrapeLoop web \<infinity> 1 (Some viemUrl) [] [] = Some (fetched, acc)"
    and rs: "rs = array_sort engine byStarsDesc acc"
    by (auto simp: main_def scrapeGitHubDependents_def viemUrl_def split: option.splits)
  from scrapeLoop_run[OF l] viemUrl_nonempty obtain ps us u final where
    "follow web 1 viemUrl ps = Some (us, u)" "endsWith web (1 + length ps) u final"
    "(fetched, acc) = ([] @ us @ [u], [] @ recordsOf (ps @ final))"
    by blast
  with rs show ?thesis by auto
qed

lemma run_main:
  assumes "follow web 1 viemUrl ps = Some (us, u)" "endsWith web (Suc (length ps)) u final"
  shows "main engine web = Some (us @ [u], Written (js ''./viem_dependents_scraped.json'')
                                    (array_sort engine byStarsDesc (recordsOf (ps @ final))))"
proof -
  note f = assms(1)[unfolded viemUrl_def]
  have cap: "enat (length ps) \<le> \<infinity>" "enat (Suc (length ps)) \<le> \<infinity>" by simp_all
  consider "final = []" "web (Suc (length ps)) u = None"
    | r where "final = []" "web (Suc (length ps)) u = Some r" "\<not> ok r \<or> body r = None"
    | r p where "final = [p]" "web (Suc (length ps)) u = Some r" "ok r" "body r = Some p"
        "terminalPage p"
    using assms(2) by (auto simp: endsWith_def split: option.splits if_splits)
  then have "scrapeGitHubDependents engine web (js ''wevm'') (js ''viem'') \<infinity> =
           Some (us @ [u], array_sort engine byStarsDesc (recordsOf (ps @ final)))"
  proof cases
    case 1
    then have "(\<exists>r. web (Suc (length ps)) u = Some r \<and>
              (\<not> ok r \<or> body r = None \<or> (\<exists>p. body r = Some p \<and> boxes p = []))) \<or>
         web (Suc (length ps)) u = None \<or> \<not> enat (Suc (length ps)) \<le> \<infinity>"
      by blast
    from scrape_stops[OF f cap(1) this, of engine] 1 show ?thesis by simp
  next
    case 2
    then have "(\<exists>r. web (Suc (length ps)) u = Some r \<and>
              (\<not> ok r \<or> body r = None \<or> (\<exists>p. body r = Some p \<and> boxes p = []))) \<or>
         web (Suc (length ps)) u = None \<or> \<not> enat (Suc (length ps)) \<le> \<infinity>"
      by blast
    from scrape_stops[OF f cap(1) this, of engine] 2 show ?thesis by simp
  next
    case 3
    from scrape_terminal[OF f cap(2) 3(2-5), of engine] 3(1) show ?thesis by simp
  qed
  then show ?thesis by (rule main_of_scrape)
qed

lemma follow_documents:
  "follow web n u ps = Some (us, u') \<Longrightarrow>
   documentsFrom web n (us @ rest) = ps @ documentsFrom web (n + length ps) rest"
proof (induction ps arbitrary: n u us)
  case Nil
  then show ?case by simp
next
  case (Cons p ps)
  from Cons.prems obtain r h us' where
    r: "web n u = Some r" "ok r" "body r = Some p"
    and f: "follow web (Suc n) (nextUrl h) ps = Some (us', u')" and us: "us = u # us'"
    by (auto split: option.splits if_splits)
  from Cons.IH[OF f] r us show ?case by simp
qed

lemma run_documents:
  assumes "follow web 1 start ps = Some (us, u)" "endsWith web (Suc (length ps)) u final"
  shows "documentsOf web (us @ [u]) = ps @ final"
proof -
  have "documentsFrom web (Suc (length ps)) [u] = final"
    using assms(2) by (auto simp: endsWith_def split: option.splits if_splits)
  with follow_documents[OF assms(1), of "[u]"] show ?thesis by (simp add: documentsOf_def)
qed

lemma main_documents:
  assumes "main engine web = Some (fetched, Written p rs)"
  shows "\<exists>ps us u final. follow web 1 viemUrl ps = Some (us, u) \<and>
           endsWith web (Suc (length ps)) u final \<and> fetched = us @ [u] \<and>
           documentsOf web fetched = ps @ final"
proof -
  from main_run[OF assms] obtain ps us u final where
    r: "follow web 1 viemUrl ps = Some (us, u)" "endsWith web (Suc (length ps)) u final"
       "fetched = us @ [u]"
    by blast
  from run_documents[OF r(1,2)] r show ?thesis by blast
qed

lemma endsWith_webDup: "endsWith webDup (Suc (length ([] :: Page list))) viemUrl [pageDup]"
  by (simp add: endsWith_def webDup_def ok_okPage terminal_pageDup)

lemma endsWith_webNaN: "endsWith webNaN (Suc (length ([] :: Page list))) viemUrl [pageNaN]"
  by (simp add: endsWith_def webNaN_def ok_okPage terminalPage_def pageNaN_def)


section \<open>The claims\<close>

text \<open>
  Claim C1.  The parsing rule has any unparseable input yield 0.  On the plain-integer
  path the function guards the result with \<open>isNaN\<close>; on the \<open>k\<close> and \<open>m\<close> paths it does
  not: for the text \<open>k\<close> the cleaned string contains \<open>k\<close>, \<open>parseFloat\<close> finds no number,
  and the function returns NaN instead of 0.  (The result is NaN exactly when the cleaned
  string contains \<open>k\<close> or \<open>m\<close> and \<open>parseFloat\<close> finds no number in it:
  \<open>parseStarCount_NaN_iff\<close>.  The five examples of the specification hold:
  \<open>parseStarCount_examples\<close> and \<open>parseStarCount_1_2k\<close>.)
\<close>

theorem parseStarCount_k_NaN:
  "parseStarCount (js ''k'') = NaN \<and> parseStarCount (js ''k'') \<noteq> Fin 0 \<and>
   parseStarCount (js ''m'') = NaN \<and> parseStarCount (js ''abc'') = Fin 0"
  by (simp add: parse_defs)

text \<open>
  Claim C2.  Every output list is non-increasing in \<open>stars\<close>.  The scraper takes \<open>stars\<close>
  from \<open>parseStarCount\<close>, which returns NaN for a star text such as \<open>k\<close> (the defect of
  claim C1).  On one document with the two star texts \<open>k\<close> and \<open>7\<close> every result of the
  comparator \<open>b.stars - a.stars\<close> is NaN or 0, a tie, so that every engine leaves the array
  as it is; it is written with the stars NaN and 7, and neither order of these two values
  is non-increasing.  (Without NaN the outputs are in order:
  \<open>scraper_sorted_without_NaN\<close> and \<open>collector_sorted_whole_counts\<close>; with NaN beside
  another record they never are: \<open>scraper_output_with_NaN\<close>.)
\<close>

theorem scraper_output_unsorted_with_NaN:
  "main engine webNaN = Some ([viemUrl], Written (js ''./viem_dependents_scraped.json'')
      [repoOf (js ''b'') (js ''a/b'') NaN, repoOf (js ''d'') (js ''c/d'') (Fin 7)]) \<and>
   map stars [repoOf (js ''b'') (js ''a/b'') NaN, repoOf (js ''d'') (js ''c/d'') (Fin 7)] = [NaN, Fin 7] \<and>
   \<not> nonIncreasing [NaN, Fin 7] \<and> \<not> nonIncreasing [Fin 7, NaN]"
  by (simp add: main_webNaN) (simp add: repoOf_def)

text \<open>
  Claim C3 as stated fails.  The scraper never compares names: a document that lists
  \<open>a/b\<close> in two rows gives two records with that full name.  The collector requests each
  name once, but takes the \<open>full_name\<close> of a record from the response: when the repository
  endpoint describes the same repository for two names, two records share it.  (In both
  arrays every comparison is a tie, so that the engine has no say in the order; the runs
  are written for \<open>insertionEngine\<close>.)
\<close>

theorem duplicate_full_names:
  "main insertionEngine webDup = Some ([viemUrl], Written (js ''./viem_dependents_scraped.json'')
     [repoOf (js ''b'') (js ''a/b'') (Fin 0), repoOf (js ''b'') (js ''a/b'') (Fin 0)]) \<and>
   \<not> distinct (map full_name [repoOf (js ''b'') (js ''a/b'') (Fin 0),
                                repoOf (js ''b'') (js ''a/b'') (Fin 0)]) \<and>
   searchViemRepos insertionEngine worldAlias =
     ([SearchCode 100 1, GetRepo (js ''a/b''), GetRepo (js ''c/d'')],
      Written (js ''./viem_repositories.json'')
        [toGitHubRepo (repoData (js ''x/y'') (Fin 0)), toGitHubRepo (repoData (js ''x/y'') (Fin 0))]) \<and>
   \<not> distinct (map full_name [toGitHubRepo (repoData (js ''x/y'') (Fin 0)),
                                toGitHubRepo (repoData (js ''x/y'') (Fin 0))])"
  using main_webDup searchViemRepos_worldAlias by simp

text \<open>
  Claim C3, amended.  The collector issues its detail requests for pairwise different
  names; its output is a rearrangement of the records that these requests bring, so it has
  a \<open>full_name\<close> twice exactly when those records have, and when each record's \<open>full_name\<close>
  is the name it was requested under, no two records of the output share a \<open>full_name\<close>.  The scraper does not deduplicate: its output is a
  rearrangement of the records of all rows of the documents that its requests were
  answered with, so it has a \<open>full_name\<close> twice exactly when those rows have.  (These
  requests and documents are fixed by the environment: the documents with rows and an
  enabled Next link followed from the dependents URL, and the last request.)
\<close>

theorem unique_names_of_collector:
  "distinct (detailNames (fst (searchViemRepos engine w))) \<and>
   (snd (searchViemRepos engine w) = Written p rs \<longrightarrow>
      mset rs = mset (List.map_filter (detailRecord w) (detailNames (fst (searchViemRepos engine w)))) \<and>
      (distinct (map full_name rs) \<longleftrightarrow>
       distinct (map full_name
         (List.map_filter (detailRecord w) (detailNames (fst (searchViemRepos engine w)))))) \<and>
      ((\<forall>n\<in>set (detailNames (fst (searchViemRepos engine w))). \<forall>r.
          detailRecord w n = Some r \<longrightarrow> full_name r = n) \<longrightarrow>
        distinct (map full_name rs))) \<and>
   (main engine' web = Some (fetched, Written p' rs') \<longrightarrow>
      (\<exists>ps us u final. follow web 1 viemUrl ps = Some (us, u) \<and>
          endsWith web (Suc (length ps)) u final \<and> fetched = us @ [u] \<and>
          documentsOf web fetched = ps @ final) \<and>
      mset rs' = mset (recordsOf (documentsOf web fetched)) \<and>
      (distinct (map full_name rs') \<longleftrightarrow>
       distinct (map full_name (recordsOf (documentsOf web fetched))))) \<and>
   (follow web' 1 viemUrl ps' = Some (us', u') \<and> endsWith web' (Suc (length ps')) u' final' \<longrightarrow>
      (\<exists>out. main engine' web' =
                Some (us' @ [u'], Written (js ''./viem_dependents_scraped.json'') out) \<and>
             mset out = mset (recordsOf (ps' @ final')) \<and>
             (distinct (map full_name out) \<longleftrightarrow>
              distinct (map full_name (recordsOf (ps' @ final'))))))"
proof (intro conjI impI)
  from searchViemRepos_trace[of engine w] obtain j ns where
    j: "distinct ns"
       "fst (searchViemRepos engine w) = map (SearchCode perPage) [1..<Suc j] @ map GetRepo ns"
    by blast
  then show "distinct (detailNames (fst (searchViemRepos engine w)))" by simp
next
  assume w: "snd (searchViemRepos engine w) = Written p rs"
  then have t: "token w \<noteq> None" "token w \<noteq> Some []"
    by (auto simp: searchViemRepos_def split: if_splits)
  obtain tr res where l: "searchLoop w 1 [] [] = (tr, res)" by (cases "searchLoop w 1 [] []")
  from w t l obtain names where res: "res = Inr names"
    by (cases res) (auto simp: searchViemRepos_err)
  note s = searchViemRepos_ok[OF t l[unfolded res]]
  obtain k where "fst (searchLoop w 1 [] []) = [] @ map (SearchCode perPage) [1..<1 + k]"
    using searchLoop_shape[of 1 w "[]" "[]"] by blast
  with l have dn: "detailNames (fst (searchViemRepos engine w)) = names" unfolding s by simp
  have rs: "rs = array_sort engine byStarsDesc (List.map_filter (detailRecord w) names)"
    using w unfolding s by simp
  show "mset rs = mset (List.map_filter (detailRecord w) (detailNames (fst (searchViemRepos engine w))))"
    unfolding dn rs by (rule mset_array_sort)
  show "distinct (map full_name rs) \<longleftrightarrow>
        distinct (map full_name
          (List.map_filter (detailRecord w) (detailNames (fst (searchViemRepos engine w)))))"
    unfolding dn rs by (rule distinct_map_array_sort)
  assume echo': "\<forall>n\<in>set (detailNames (fst (searchViemRepos engine w))). \<forall>r.
          detailRecord w n = Some r \<longrightarrow> full_name r = n"
  have dist: "distinct names"
    using searchLoop_distinct[of "[]" w 1 "[]" tr names] l res by simp
  have echo: "\<forall>n\<in>set names. \<forall>r. detailRecord w n = Some r \<longrightarrow> full_name r = n"
    using echo' unfolding dn by blast
  have "distinct (map full_name (List.map_filter (detailRecord w) xs))"
    if "distinct xs" "\<forall>n\<in>set xs. \<forall>r. detailRecord w n = Some r \<longrightarrow> full_name r = n" for xs
    using that
  proof (induction xs)
    case Nil
    then show ?case by (simp add: List.map_filter_simps)
  next
    case (Cons x xs)
    then have IH: "distinct (map full_name (List.map_filter (detailRecord w) xs))" by simp
    show ?case
    proof (cases "detailRecord w x")
      case None
      then show ?thesis using IH by (simp add: List.map_filter_simps)
    next
      case (Some r)
      then have fx: "full_name r = x" using Cons.prems(2) by simp
      have "x \<notin> full_name ` set (List.map_filter (detailRecord w) xs)"
      proof
        assume "x \<in> full_name ` set (List.map_filter (detailRecord w) xs)"
        then obtain r' n where "n \<in> set xs" "detailRecord w n = Some r'" "full_name r' = x"
          by (auto simp: set_map_filter)
        then have "n = x" using Cons.prems(2) by auto
        with \<open>n \<in> set xs\<close> Cons.prems(1) show False by simp
      qed
      then show ?thesis using Some IH fx by (simp add: List.map_filter_simps)
    qed
  qed
  from this[OF dist echo] show "distinct (map full_name rs)"
    unfolding rs by (simp add: distinct_map_array_sort)
next
  assume m: "main engine' web = Some (fetched, Written p' rs')"
  then have rs': "rs' = array_sort engine' byStarsDesc (recordsOf (documentsOf web fetched))"
    by (rule main_output)
  show "\<exists>ps us u final. follow web 1 viemUrl ps = Some (us, u) \<and>
          endsWith web (Suc (length ps)) u final \<and> fetched = us @ [u] \<and>
          documentsOf web fetched = ps @ final"
    using m by (rule main_documents)
  show "mset rs' = mset (recordsOf (documentsOf web fetched))"
    unfolding rs' by (rule mset_array_sort)
  show "distinct (map full_name rs') \<longleftrightarrow>
        distinct (map full_name (recordsOf (documentsOf web fetched)))"
    unfolding rs' by (rule distinct_map_array_sort)
next
  assume "follow web' 1 viemUrl ps' = Some (us', u') \<and> endsWith web' (Suc (length ps')) u' final'"
  then have "main engine' web' =
      Some (us' @ [u'], Written (js ''./viem_dependents_scraped.json'')
                          (array_sort engine' byStarsDesc (recordsOf (ps' @ final'))))"
    by (intro run_main) simp_all
  then show "\<exists>out. main engine' web' =
                Some (us' @ [u'], Written (js ''./viem_dependents_scraped.json'') out) \<and>
             mset out = mset (recordsOf (ps' @ final')) \<and>
             (distinct (map full_name out) \<longleftrightarrow>
              distinct (map full_name (recordsOf (ps' @ final'))))"
    by (simp add: mset_array_sort distinct_map_array_sort)
qed

theorem unique_names_of_collector_witness:
  "snd (searchViemRepos insertionEngine worldTwo) =
     Written (js ''./viem_repositories.json'')
       [toGitHubRepo (repoData (js ''a/b'') (Fin 0)), toGitHubRepo (repoData (js ''c/d'') (Fin 0))] \<and>
   detailNames (fst (searchViemRepos insertionEngine worldTwo)) = [js ''a/b'', js ''c/d''] \<and>
   detailRecord worldTwo (js ''a/b'') = Some (toGitHubRepo (repoData (js ''a/b'') (Fin 0))) \<and>
   detailRecord worldTwo (js ''c/d'') = Some (toGitHubRepo (repoData (js ''c/d'') (Fin 0))) \<and>
   map full_name [toGitHubRepo (repoData (js ''a/b'') (Fin 0)), toGitHubRepo (repoData (js ''c/d'') (Fin 0))] =
     [js ''a/b'', js ''c/d''] \<and>
   distinct (map full_name
     [toGitHubRepo (repoData (js ''a/b'') (Fin 0)), toGitHubRepo (repoData (js ''c/d'') (Fin 0))]) \<and>
   main insertionEngine webDup = Some ([viemUrl], Written (js ''./viem_dependents_scraped.json'')
     [repoOf (js ''b'') (js ''a/b'') (Fin 0), repoOf (js ''b'') (js ''a/b'') (Fin 0)]) \<and>
   recordsOf (documentsOf webDup [viemUrl]) =
     [repoOf (js ''b'') (js ''a/b'') (Fin 0), repoOf (js ''b'') (js ''a/b'') (Fin 0)] \<and>
   mset [repoOf (js ''b'') (js ''a/b'') (Fin 0), repoOf (js ''b'') (js ''a/b'') (Fin 0)] =
     mset (recordsOf (documentsOf webDup [viemUrl])) \<and>
   follow webDup 1 viemUrl [] = Some ([], viemUrl) \<and>
   endsWith webDup (Suc (length ([] :: Page list))) viemUrl [pageDup] \<and>
   (\<exists>out. main insertionEngine webDup =
            Some ([] @ [viemUrl], Written (js ''./viem_dependents_scraped.json'') out) \<and>
          mset out = mset (recordsOf ([] @ [pageDup])))"
proof -
  let ?a = "toGitHubRepo (repoData (js ''a/b'') (Fin 0))"
  let ?c = "toGitHubRepo (repoData (js ''c/d'') (Fin 0))"
  let ?r = "repoOf (js ''b'') (js ''a/b'') (Fin 0)"
  have fn: "map full_name [?a, ?c] = [js ''a/b'', js ''c/d'']"
    by (simp add: toGitHubRepo_def repoData_def)
  have dn: "detailNames (fst (searchViemRepos insertionEngine worldTwo)) = [js ''a/b'', js ''c/d'']"
    and sn: "snd (searchViemRepos insertionEngine worldTwo) =
               Written (js ''./viem_repositories.json'') [?a, ?c]"
    by (simp_all add: searchViemRepos_worldTwo)
  have echo: "\<forall>n\<in>set (detailNames (fst (searchViemRepos insertionEngine worldTwo))). \<forall>r.
        detailRecord worldTwo n = Some r \<longrightarrow> full_name r = n"
    by (simp add: detail_worldTwo toGitHubRepo_def repoData_def)
  have rc: "recordsOf (documentsOf webDup [viemUrl]) = [?r, ?r]"
    by (simp add: documentsOf_webDup recordsOf_def pageRecords_pageDup)
  have f0: "follow webDup 1 viemUrl [] = Some ([], viemUrl)" by simp
  note t = unique_names_of_collector[of insertionEngine worldTwo "js ''./viem_repositories.json''"
      "[?a, ?c]" insertionEngine webDup "[viemUrl]" "js ''./viem_dependents_scraped.json''"
      "[?r, ?r]" webDup "[]" "[]" viemUrl "[pageDup]"]
  from t sn echo have d: "distinct (map full_name [?a, ?c])" by blast
  from t main_webDup[of insertionEngine]
  have m: "mset [?r, ?r] = mset (recordsOf (documentsOf webDup [viemUrl]))" by blast
  from t f0 endsWith_webDup
  have o: "\<exists>out. main insertionEngine webDup =
            Some ([] @ [viemUrl], Written (js ''./viem_dependents_scraped.json'') out) \<and>
          mset out = mset (recordsOf ([] @ [pageDup]))"
    by blast
  show ?thesis
    using sn dn detail_worldTwo[of "js ''a/b''"] detail_worldTwo[of "js ''c/d''"] fn d
      main_webDup[of insertionEngine] rc m f0 endsWith_webDup o
    by (intro conjI) assumption+
qed




text \<open>
  Claim C5.  Every run of the collector requests the search pages \<open>1, \<dots>, k\<close> for some
  \<open>k\<close> of at most ten, each with page size 100, and its detail requests are for pairwise
  different names.  If the pages before page \<open>k\<close> are full and page \<open>k\<close> comes back with
  fewer items than the page size, exactly the pages \<open>1, \<dots>, k\<close> are requested.  With 100
  items on page 1 and 40 on page 2, all of different repositories, the run requests page 1,
  page 2 and then each of the 140 names once, in the order found.
\<close>

theorem collector_paging:
  "(\<exists>j\<le>10. searchRequests (fst (searchViemRepos engine w)) = map (Pair 100) [1..<Suc j]) \<and>
   distinct (detailNames (fst (searchViemRepos engine w))) \<and>
   (token w \<noteq> None \<and> token w \<noteq> Some [] \<and> 1 \<le> k \<and> k \<le> 10 \<and>
    (\<forall>p. 1 \<le> p \<and> p < k \<longrightarrow> fullPage w p) \<and>
    search_code w 100 k = Some r \<and> ok r \<and> body r = Some d \<and> length (items d) < 100 \<longrightarrow>
      searchRequests (fst (searchViemRepos engine w)) = map (Pair 100) [1..<Suc k]) \<and>
   (token w \<noteq> None \<and> token w \<noteq> Some [] \<and>
    search_code w 100 1 = Some r1 \<and> ok r1 \<and> body r1 = Some d1 \<and> length (items d1) = 100 \<and>
    search_code w 100 2 = Some r2 \<and> ok r2 \<and> body r2 = Some d2 \<and> length (items d2) = 40 \<and>
    distinct (map repository_full_name (items d1 @ items d2)) \<longrightarrow>
      fst (searchViemRepos engine w) =
        [SearchCode 100 1, SearchCode 100 2] @
        map GetRepo (map repository_full_name (items d1 @ items d2)))"
proof (intro conjI impI)
  from searchViemRepos_trace[of engine w] obtain j ns where
    j: "j \<le> maxPages" "distinct ns"
       "fst (searchViemRepos engine w) = map (SearchCode perPage) [1..<Suc j] @ map GetRepo ns"
    by blast
  then have "j \<le> 10 \<and> searchRequests (fst (searchViemRepos engine w)) = map (Pair 100) [1..<Suc j]"
    by (simp add: maxPages_def perPage_def)
  then show "\<exists>j\<le>10. searchRequests (fst (searchViemRepos engine w)) = map (Pair 100) [1..<Suc j]"
    by blast
  show "distinct (detailNames (fst (searchViemRepos engine w)))" using j by simp
next
  assume a: "token w \<noteq> None \<and> token w \<noteq> Some [] \<and> 1 \<le> k \<and> k \<le> 10 \<and>
    (\<forall>p. 1 \<le> p \<and> p < k \<longrightarrow> fullPage w p) \<and>
    search_code w 100 k = Some r \<and> ok r \<and> body r = Some d \<and> length (items d) < 100"
  then have k: "1 \<le> k" "k \<le> maxPages" "\<forall>p. 1 \<le> p \<and> p < k \<longrightarrow> fullPage w p"
    by (simp_all add: maxPages_def)
  from searchLoop_stop_at[OF k] obtain names' where
    "searchLoop w 1 [] [] = searchLoop w k names' (map (SearchCode perPage) [1..<k])" ..
  also have "\<dots> = (map (SearchCode perPage) [1..<k] @ [SearchCode perPage k],
                    Inr (foldl set_add names' (map repository_full_name (items d))))"
    using a k(2) by (intro searchLoop_short_at[where r = r]) (simp_all add: perPage_def)
  also have "map (SearchCode perPage) [1..<k] @ [SearchCode perPage k] =
             map (SearchCode perPage) [1..<Suc k]"
    using k(1) by simp
  finally have "searchViemRepos engine w = (map (SearchCode perPage) [1..<Suc k] @
        map GetRepo (foldl set_add names' (map repository_full_name (items d))),
        Written (js ''./viem_repositories.json'') (array_sort engine byStarsDesc
          (List.map_filter (detailRecord w) (foldl set_add names' (map repository_full_name (items d))))))"
    using a by (intro searchViemRepos_ok) simp_all
  then show "searchRequests (fst (searchViemRepos engine w)) = map (Pair 100) [1..<Suc k]"
    by (simp add: perPage_def)
next
  assume a: "token w \<noteq> None \<and> token w \<noteq> Some [] \<and>
    search_code w 100 1 = Some r1 \<and> ok r1 \<and> body r1 = Some d1 \<and> length (items d1) = 100 \<and>
    search_code w 100 2 = Some r2 \<and> ok r2 \<and> body r2 = Some d2 \<and> length (items d2) = 40 \<and>
    distinct (map repository_full_name (items d1 @ items d2))"
  let ?n1 = "map repository_full_name (items d1)"
  let ?n2 = "map repository_full_name (items d2)"
  have d: "distinct ([] @ ?n1)" "distinct (?n1 @ ?n2)" using a by simp_all
  have "searchLoop w 1 [] [] =
        searchLoop w (1 + 1) (foldl set_add [] ?n1) ([] @ [SearchCode perPage 1])"
    using a by (intro searchLoop_full_at[where r = r1]) (simp_all add: perPage_def maxPages_def)
  also have "foldl set_add [] ?n1 = ?n1" using foldl_set_add_append[OF d(1)] by simp
  also have "searchLoop w (1 + 1) ?n1 ([] @ [SearchCode perPage 1]) =
        (([] @ [SearchCode perPage 1]) @ [SearchCode perPage (1 + 1)], Inr (foldl set_add ?n1 ?n2))"
    using a by (intro searchLoop_short_at[where r = r2])
      (simp_all add: perPage_def maxPages_def numeral_2_eq_2)
  also have "foldl set_add ?n1 ?n2 = ?n1 @ ?n2" by (rule foldl_set_add_append[OF d(2)])
  finally have "searchLoop w 1 [] [] =
        ([SearchCode perPage 1, SearchCode perPage 2], Inr (?n1 @ ?n2))"
    by (simp add: numeral_2_eq_2)
  then have "searchViemRepos engine w =
        ([SearchCode perPage 1, SearchCode perPage 2] @ map GetRepo (?n1 @ ?n2),
         Written (js ''./viem_repositories.json'') (array_sort engine byStarsDesc
          (List.map_filter (detailRecord w) (?n1 @ ?n2))))"
    using a by (intro searchViemRepos_ok) simp_all
  then show "fst (searchViemRepos engine w) =
        [SearchCode 100 1, SearchCode 100 2] @
        map GetRepo (map repository_full_name (items d1 @ items d2))"
    by (simp add: perPage_def)
qed

theorem collector_paging_witness:
  "token world140 \<noteq> None \<and> token world140 \<noteq> Some [] \<and> fullPage world140 1 \<and>
   search_code world140 100 1 = Some (okSearch (itemsOf (map nameNo [0..<100]))) \<and>
   length (itemsOf (map nameNo [0..<100])) = 100 \<and>
   search_code world140 100 2 = Some (okSearch (itemsOf (map nameNo [100..<140]))) \<and>
   length (itemsOf (map nameNo [100..<140])) = 40 \<and>
   distinct (map nameNo [0..<100] @ map nameNo [100..<140]) \<and>
   searchRequests (fst (searchViemRepos insertionEngine world140)) = [(100, 1), (100, 2)] \<and>
   fst (searchViemRepos insertionEngine world140) =
     [SearchCode 100 1, SearchCode 100 2] @
     map GetRepo (map nameNo [0..<100] @ map nameNo [100..<140])"
proof -
  let ?i1 = "itemsOf (map nameNo [0..<100])" and ?i2 = "itemsOf (map nameNo [100..<140])"
  let ?d1 = "\<lparr>total_count = length ?i1, items = ?i1\<rparr>"
  let ?d2 = "\<lparr>total_count = length ?i2, items = ?i2\<rparr>"
  have l1: "length ?i1 = 100" and l2: "length ?i2 = 40"
    by (simp_all del: upt_rec_numeral)
  have f: "\<forall>p. 1 \<le> p \<and> p < (2::nat) \<longrightarrow> fullPage world140 p"
  proof (intro allI impI)
    fix p :: nat assume "1 \<le> p \<and> p < 2"
    then have "p = 1" by simp
    then show "fullPage world140 p" using fullPage_world140 by simp
  qed
  have dn: "distinct (map repository_full_name (items ?d1 @ items ?d2))"
    using distinct_names140 by (simp del: upt_rec_numeral)
  have o1: "ok (okSearch ?i1)" "body (okSearch ?i1) = Some ?d1"
    and o2: "ok (okSearch ?i2)" "body (okSearch ?i2) = Some ?d2"
    by (rule okSearch_facts)+
  have n1: "length (items ?d1) = 100" and n2: "length (items ?d2) = 40"
    and n2': "length (items ?d2) < 100"
    using l1 l2 by (simp_all only: GitHubCodeSearchResponse.select_convs)
  have k: "1 \<le> (2::nat)" "(2::nat) \<le> 10" by simp_all
  have h3: "token world140 \<noteq> None \<and> token world140 \<noteq> Some [] \<and> 1 \<le> (2::nat) \<and> (2::nat) \<le> 10 \<and>
    (\<forall>p. 1 \<le> p \<and> p < 2 \<longrightarrow> fullPage world140 p) \<and>
    search_code world140 100 2 = Some (okSearch ?i2) \<and> ok (okSearch ?i2) \<and>
    body (okSearch ?i2) = Some ?d2 \<and> length (items ?d2) < 100"
    using world140_facts(1,2,4) k f o2 n2' by (intro conjI) assumption+
  have h4: "token world140 \<noteq> None \<and> token world140 \<noteq> Some [] \<and>
    search_code world140 100 1 = Some (okSearch ?i1) \<and> ok (okSearch ?i1) \<and>
    body (okSearch ?i1) = Some ?d1 \<and> length (items ?d1) = 100 \<and>
    search_code world140 100 2 = Some (okSearch ?i2) \<and> ok (okSearch ?i2) \<and>
    body (okSearch ?i2) = Some ?d2 \<and> length (items ?d2) = 40 \<and>
    distinct (map repository_full_name (items ?d1 @ items ?d2))"
    using world140_facts o1 o2 n1 n2 dn by (intro conjI) assumption+
  from collector_paging[of insertionEngine world140 2 "okSearch ?i2" ?d2 "okSearch ?i1" ?d1 "okSearch ?i2" ?d2]
       h3 h4
  have c: "searchRequests (fst (searchViemRepos insertionEngine world140)) = map (Pair 100) [1..<Suc 2]"
    "fst (searchViemRepos insertionEngine world140) =
        [SearchCode 100 1, SearchCode 100 2] @
        map GetRepo (map repository_full_name (items ?d1 @ items ?d2))"
    by blast+
  have "map (Pair (100::nat)) [1..<Suc 2] = [(100, 1), (100, 2)]"
    by (simp add: upt_conv_Cons)
  with c have c1: "searchRequests (fst (searchViemRepos insertionEngine world140)) = [(100, 1), (100, 2)]"
    by simp
  have c2: "fst (searchViemRepos insertionEngine world140) =
     [SearchCode 100 1, SearchCode 100 2] @
     map GetRepo (map nameNo [0..<100] @ map nameNo [100..<140])"
    using c(2) by (simp del: upt_rec_numeral)
  show ?thesis
    using world140_facts fullPage_world140 l1 l2 distinct_names140 c1 c2
    by (intro conjI) assumption+
qed

text \<open>
  Claim C6.  Let the search pages before page \<open>k\<close> be answered in full (success, at least
  \<open>perPage\<close> items), so that the collector requests page \<open>k\<close>, within the ten pages, and let
  page \<open>k\<close> come back with a non-success status.  Then the run issues the page requests
  \<open>1, \<dots>, k\<close> and no detail request, ends with exit code 1 and writes no file.  The error
  it logs is the message made of the status code, the status text and the response body,
  when that body can be read.
\<close>

theorem collector_aborts_on_search_failure:
  assumes "token w \<noteq> None" and "token w \<noteq> Some []"
    and "1 \<le> k" and "k \<le> maxPages"
    and "\<forall>p. 1 \<le> p \<and> p < k \<longrightarrow> fullPage w p"
    and "search_code w perPage k = Some r" and "\<not> ok r"
  shows "fst (searchViemRepos engine w) = map (SearchCode perPage) [1..<Suc k] \<and>
         detailNames (fst (searchViemRepos engine w)) = [] \<and>
         exit_code (snd (searchViemRepos engine w)) = 1 \<and>
         output_file (snd (searchViemRepos engine w)) = None \<and>
         (\<forall>errorText. body_text r = Some errorText \<longrightarrow>
            snd (searchViemRepos engine w) =
              Fatal (Error (js ''GitHub API error: '' @ decimal (status r) @ js '' '' @
                            statusText r @ [0x0A] @ errorText)))"
proof -
  let ?e = "case body_text r of
              None \<Rightarrow> BodyUnreadable
            | Some errorText \<Rightarrow> Error (apiErrorMessage (status r) (statusText r) errorText)"
  from searchLoop_stop_at[OF assms(3-5)] obtain names' where
    "searchLoop w 1 [] [] = searchLoop w k names' (map (SearchCode perPage) [1..<k])" ..
  also have "\<dots> = (map (SearchCode perPage) [1..<k] @ [SearchCode perPage k], Inl ?e)"
    by (rule searchLoop_error_at[OF assms(4,6,7)])
  also have "map (SearchCode perPage) [1..<k] @ [SearchCode perPage k] =
             map (SearchCode perPage) [1..<Suc k]"
    using assms(3) by simp
  finally have "searchViemRepos engine w = (map (SearchCode perPage) [1..<Suc k], Fatal ?e)"
    by (rule searchViemRepos_err[OF assms(1,2)])
  then show ?thesis by (simp add: apiErrorMessage_def)
qed

theorem collector_aborts_on_search_failure_witness:
  "token world403 \<noteq> None \<and> token world403 \<noteq> Some [] \<and>
   search_code world403 perPage 1 = Some (failed 403) \<and>
   \<not> ok (failed 403 :: GitHubCodeSearchResponse Response) \<and>
   fst (searchViemRepos insertionEngine world403) = [SearchCode 100 1] \<and>
   output_file (snd (searchViemRepos insertionEngine world403)) = None \<and>
   exit_code (snd (searchViemRepos insertionEngine world403)) = 1 \<and>
   snd (searchViemRepos insertionEngine world403) =
     Fatal (Error (js ''GitHub API error: 403 '' @ [0x0A] @ js ''denied''))"
proof -
  have n: "\<not> ok (failed 403 :: GitHubCodeSearchResponse Response)"
    by (simp add: ok_def failed_def)
  have f: "\<forall>p. 1 \<le> p \<and> p < (1::nat) \<longrightarrow> fullPage world403 p" by simp
  have k: "(1::nat) \<le> 1" "1 \<le> maxPages" by (simp_all add: maxPages_def)
  have t: "body_text (failed 403 :: GitHubCodeSearchResponse Response) = Some (js ''denied'')"
    "status (failed 403 :: GitHubCodeSearchResponse Response) = 403"
    "statusText (failed 403 :: GitHubCodeSearchResponse Response) = []"
    by (simp_all add: failed_def)
  from collector_aborts_on_search_failure[OF search_world403(1,2) k f search_world403(3) n]
  show ?thesis
    using search_world403 n by (simp add: t decimal_403 perPage_def) (simp add: js_def)
qed

text \<open>
  Claim C7.  Once the paging phase has collected the names, the run cannot abort any more.
  A detail request is issued for every name, in order; a request that is rejected,
  answered with a non-success status, or whose body does not decode contributes no
  record; every other one contributes the record of its response; the records go through
  the sort by stars and are written, with exit code 0.
\<close>

theorem collector_detail_failures_skipped:
  assumes "token w \<noteq> None" and "token w \<noteq> Some []"
    and "searchLoop w 1 [] [] = (tr, Inr names)"
  shows "searchViemRepos engine w =
           (tr @ map GetRepo names,
            Written (js ''./viem_repositories.json'')
              (array_sort engine byStarsDesc (List.map_filter (detailRecord w) names))) \<and>
         detailNames (fst (searchViemRepos engine w)) = names \<and>
         exit_code (snd (searchViemRepos engine w)) = 0 \<and>
         (\<exists>rs. output_file (snd (searchViemRepos engine w)) = Some (js ''./viem_repositories.json'', rs) \<and>
               set rs = {r. \<exists>n\<in>set names. detailRecord w n = Some r}) \<and>
         (\<forall>n. detailRecord w n = None \<longleftrightarrow>
               repos w n = None \<or> (\<exists>r. repos w n = Some r \<and> (\<not> ok r \<or> body r = None)))"
proof -
  have s: "searchViemRepos engine w =
           (tr @ map GetRepo names,
            Written (js ''./viem_repositories.json'')
              (array_sort engine byStarsDesc (List.map_filter (detailRecord w) names)))"
    by (rule searchViemRepos_ok[OF assms])
  obtain k where "fst (searchLoop w 1 [] []) = [] @ map (SearchCode perPage) [1..<1 + k]"
    using searchLoop_shape[of 1 w "[]" "[]"] by blast
  with assms(3) have "detailNames tr = []" by simp
  with s show ?thesis
    by (simp add: set_array_sort set_map_filter detailRecord_None)
qed

theorem collector_detail_failures_skipped_witness:
  "token worldSmall \<noteq> None \<and> token worldSmall \<noteq> Some [] \<and>
   searchLoop worldSmall 1 [] [] = ([SearchCode 100 1], Inr [js ''a/b'', js ''c/d'']) \<and>
   repos worldSmall (js ''c/d'') = Some (failed 404) \<and>
   searchViemRepos insertionEngine worldSmall =
     ([SearchCode 100 1, GetRepo (js ''a/b''), GetRepo (js ''c/d'')],
      Written (js ''./viem_repositories.json'') [toGitHubRepo (repoData (js ''a/b'') (Fin 5))])"
proof -
  have "repos worldSmall (js ''c/d'') = Some (failed 404)"
    by (simp add: worldSmall_def names_neq)
  moreover have "array_sort insertionEngine byStarsDesc
      (List.map_filter (detailRecord worldSmall) [js ''a/b'', js ''c/d'']) =
      [toGitHubRepo (repoData (js ''a/b'') (Fin 5))]"
    by (simp add: List.map_filter_simps detail_worldSmall array_sort_single)
  ultimately show ?thesis
    using collector_detail_failures_skipped[OF token_worldSmall searchLoop_worldSmall,
        of insertionEngine]
      token_worldSmall searchLoop_worldSmall
    by simp
qed

text \<open>
  Claim C8.  After a non-success status the records of the earlier pages are still sorted
  by stars and written.  The loop does stop there and \<open>main\<close> does write the records of the
  earlier pages, passed through the sort (\<open>scraper_ends_on_failure\<close>, for every way the loop
  ends).  But the array written need not be in order: a first page whose rows carry the
  star texts \<open>k\<close> and \<open>7\<close>, followed by a response with status 500, gives the stars NaN and
  7 (the defect of claim C1), every comparison is a tie, every engine leaves the array as
  it is, and NaN before 7 is not a non-increasing order.
\<close>

theorem scraper_failure_output_unsorted:
  "webFailNaN 1 viemUrl = Some (okPage pageNaNNext) \<and>
   webFailNaN 2 (js ''https://github.com/p2'') = Some (failed 500) \<and>
   \<not> ok (failed 500 :: Page Response) \<and>
   main engine webFailNaN =
     Some ([viemUrl, js ''https://github.com/p2''],
           Written (js ''./viem_dependents_scraped.json'')
             [repoOf (js ''b'') (js ''a/b'') NaN, repoOf (js ''d'') (js ''c/d'') (Fin 7)]) \<and>
   map stars [repoOf (js ''b'') (js ''a/b'') NaN, repoOf (js ''d'') (js ''c/d'') (Fin 7)] =
     [NaN, Fin 7] \<and>
   \<not> nonIncreasing [NaN, Fin 7]"
  by (simp add: main_webFailNaN not_ok_failed)
     (simp add: webFailNaN_def viemUrl_neq_p2 repoOf_def)

text \<open>
  Claim C9.  After a terminal page the scraper fetches no more and ends with a sorted,
  written output.  It does fetch no more: after a document without rows, or without a
  usable Next control, the requests issued are exactly those up to that document, and the
  records of all rows are passed through the sort and written
  (\<open>scraper_ends_at_terminal_page\<close>; \<open>main_webEmptySecond\<close> is the two-page run without a
  third fetch).  But the output written need not be sorted: on a single page without Next
  control whose rows carry the star texts \<open>m\<close> and \<open>3\<close> the run makes its one fetch, parses
  both rows to the stars NaN and 3 (the defect of claim C1), every comparison is a tie,
  every engine leaves the array as it is, and NaN before 3 is not a non-increasing order.
\<close>

theorem scraper_single_page_output_unsorted:
  "webNaNLast 1 viemUrl = Some (okPage pageNaNLast) \<and> next_href pageNaNLast = None \<and>
   terminalPage pageNaNLast \<and>
   main engine webNaNLast =
     Some ([viemUrl], Written (js ''./viem_dependents_scraped.json'')
             [repoOf (js ''f'') (js ''e/f'') NaN, repoOf (js ''h'') (js ''g/h'') (Fin 3)]) \<and>
   map stars [repoOf (js ''f'') (js ''e/f'') NaN, repoOf (js ''h'') (js ''g/h'') (Fin 3)] =
     [NaN, Fin 3] \<and>
   \<not> nonIncreasing [NaN, Fin 3]"
  by (simp add: main_webNaNLast)
     (simp add: webNaNLast_def pageNaNLast_def terminalPage_def repoOf_def)

text \<open>
  Claim C10 as stated fails: for a row linking to \<open>/a/\<close> the full name \<open>a/\<close> contains a
  \<open>/\<close>, the segment after it is empty, and the record's name is the whole full name.
  (A single record is left as it is by every engine; the run is written for
  \<open>insertionEngine\<close>.)
\<close>

theorem scraper_name_counterexample:
  "main insertionEngine webSlash = Some ([viemUrl], Written (js ''./viem_dependents_scraped.json'')
     [repoOf (js ''a/'') (js ''a/'') (Fin 0)]) \<and>
   full_name (repoOf (js ''a/'') (js ''a/'') (Fin 0)) = js ''a/'' \<and>
   slash \<in> set (js ''a/'') \<and> secondSegment (js ''a/'') = [] \<and>
   name (repoOf (js ''a/'') (js ''a/'') (Fin 0)) = js ''a/'' \<and>
   name (repoOf (js ''a/'') (js ''a/'') (Fin 0)) \<noteq> secondSegment (js ''a/'')"
  by (simp add: main_webSlash) (simp add: repoOf_def secondSegment_def slash_def js_def)

text \<open>
  Claim C10, amended.  Every record the scraper appends has a non-empty \<open>full_name\<close>, its
  \<open>url\<close> is \<open>https://github.com/\<close> followed by \<open>full_name\<close>, and its \<open>name\<close> is the segment
  of \<open>full_name\<close> between the first and the second \<open>/\<close> when that segment is not empty,
  and the whole \<open>full_name\<close> otherwise (no \<open>/\<close>, or nothing between the first \<open>/\<close> and the
  next).  A row is dropped exactly when it has no link target or the target, with its
  first \<open>/\<close> removed and trimmed, is empty.  The same holds of every record of an output.
\<close>

theorem scraper_record_shape:
  "(parseBox box = Some r \<longrightarrow>
      full_name r \<noteq> [] \<and> url r = js ''https://github.com/'' @ full_name r \<and>
      name r = (if secondSegment (full_name r) \<noteq> [] then secondSegment (full_name r)
                else full_name r)) \<and>
   (parseBox box = None \<longleftrightarrow>
      (case repo_href box of None \<Rightarrow> True | Some href \<Rightarrow> trim (replaceFirst slash href) = [])) \<and>
   (scrapeGitHubDependents engine web owner repo mp = Some (fetched, rs) \<and> r' \<in> set rs \<longrightarrow>
      full_name r' \<noteq> [] \<and> url r' = js ''https://github.com/'' @ full_name r' \<and>
      name r' = (if secondSegment (full_name r') \<noteq> [] then secondSegment (full_name r')
                 else full_name r'))"
proof -
  have a: "full_name x \<noteq> [] \<and> url x = js ''https://github.com/'' @ full_name x \<and>
      name x = (if secondSegment (full_name x) \<noteq> [] then secondSegment (full_name x)
                else full_name x)" if "parseBox b = Some x" for b x
    using parseBox_Some(1-3)[OF that] by (simp add: orElse_def)
  have "\<exists>b. parseBox b = Some r'"
    if "scrapeGitHubDependents engine web owner repo mp = Some (fetched, rs)" "r' \<in> set rs"
    using that by (rule scrape_output_record)
  with a parseBox_None[of box] show ?thesis by blast
qed

theorem scraper_record_shape_witness:
  "parseBox (rowOf (js ''/a/b'') []) = Some (repoOf (js ''b'') (js ''a/b'') (Fin 0)) \<and>
   name (repoOf (js ''b'') (js ''a/b'') (Fin 0)) = secondSegment (js ''a/b'') \<and>
   scrapeGitHubDependents insertionEngine webDup (js ''wevm'') (js ''viem'') \<infinity> =
     Some ([viemUrl], [repoOf (js ''b'') (js ''a/b'') (Fin 0), repoOf (js ''b'') (js ''a/b'') (Fin 0)]) \<and>
   repoOf (js ''b'') (js ''a/b'') (Fin 0) \<in>
     set [repoOf (js ''b'') (js ''a/b'') (Fin 0), repoOf (js ''b'') (js ''a/b'') (Fin 0)] \<and>
   url (repoOf (js ''b'') (js ''a/b'') (Fin 0)) = js ''https://github.com/a/b''"
proof -
  have s: "scrapeGitHubDependents insertionEngine webDup (js ''wevm'') (js ''viem'') \<infinity> =
     Some ([viemUrl], [repoOf (js ''b'') (js ''a/b'') (Fin 0), repoOf (js ''b'') (js ''a/b'') (Fin 0)])"
    using main_webDup[of insertionEngine] by (auto simp: main_def split: option.splits)
  have seg: "secondSegment (js ''a/b'') = js ''b''"
    by (simp add: secondSegment_def slash_def js_def)
  have fn: "full_name (repoOf (js ''b'') (js ''a/b'') (Fin 0)) = js ''a/b''"
    by (simp add: repoOf_def)
  from scraper_record_shape[of "rowOf (js ''/a/b'') []" "repoOf (js ''b'') (js ''a/b'') (Fin 0)"
      insertionEngine webDup "js ''wevm''" "js ''viem''" \<infinity> "[viemUrl]"
      "[repoOf (js ''b'') (js ''a/b'') (Fin 0), repoOf (js ''b'') (js ''a/b'') (Fin 0)]"
      "repoOf (js ''b'') (js ''a/b'') (Fin 0)"] parseBox_ab s
  have "name (repoOf (js ''b'') (js ''a/b'') (Fin 0)) = js ''b'' \<and>
        url (repoOf (js ''b'') (js ''a/b'') (Fin 0)) = js ''https://github.com/'' @ js ''a/b''"
    unfolding fn seg by simp
  then show ?thesis using parseBox_ab s seg by (simp add: js_def)
qed


end
